theory Spec2Isabelle
  imports Main "HOL-Library.Sublist" "HOL-Library.Word"
begin

section \<open>The compaction core of C6Logger (src/src/Logger.cpp)\<close>

text \<open>
  The embedding follows \<^verbatim>\<open>Logger.cpp\<close> function by function. A \<^verbatim>\<open>std::string\<close> is a
  \<^typ>\<open>string\<close> (a list of bytes), a position in it a \<^typ>\<open>nat\<close> (a string is shorter
  than \<^verbatim>\<open>SIZE_MAX\<close>, so no position wraps), and \<^verbatim>\<open>std::string::npos\<close> is \<^term>\<open>None\<close>.
  The repeat counters are \<^verbatim>\<open>std::size_t\<close> values that the code adds and multiplies without
  a range check, so they are 64-bit words (the LP64 and LLP64 targets of the platform
  switches in \<^verbatim>\<open>GetLogPathOnce\<close>). \<^verbatim>\<open>std::string::substr\<close> throws
  \<^verbatim>\<open>std::out_of_range\<close> when the position lies behind the end of the string; the
  exception is a value of the model. Every read \<^verbatim>\<open>s[i]\<close> of the code stands behind a
  comparison of \<open>i\<close> with the length, and so does every \<open>s ! i\<close> here.
\<close>

subsection \<open>The standard library as the code uses it\<close>

datatype exn = out_of_range

type_synonym size_t = "64 word"

definition substr :: "string \<Rightarrow> nat \<Rightarrow> nat \<Rightarrow> exn + string" where
  \<comment> \<open>\<^verbatim>\<open>s.substr(pos, n)\<close>\<close>
  "substr s pos n = (if length s < pos then Inl out_of_range else Inr (take n (drop pos s)))"

definition substr_from :: "string \<Rightarrow> nat \<Rightarrow> exn + string" where
  \<comment> \<open>\<^verbatim>\<open>s.substr(pos)\<close>\<close>
  "substr_from s pos = (if length s < pos then Inl out_of_range else Inr (drop pos s))"

fun find_from :: "string \<Rightarrow> string \<Rightarrow> nat \<Rightarrow> nat option" where
  "find_from pat [] i = (if pat = [] then Some i else None)"
| "find_from pat (c # cs) i =
     (if prefix pat (c # cs) then Some i else find_from pat cs (Suc i))"

definition str_find :: "string \<Rightarrow> string \<Rightarrow> nat \<Rightarrow> nat option" where
  \<comment> \<open>\<^verbatim>\<open>s.find(pat, pos)\<close>: the first occurrence at or after \<open>pos\<close>\<close>
  "str_find s pat pos = (if length s < pos then None else find_from pat (drop pos s) pos)"

fun rfind_down :: "string \<Rightarrow> string \<Rightarrow> nat \<Rightarrow> nat option" where
  "rfind_down s pat 0 = (if prefix pat s then Some 0 else None)"
| "rfind_down s pat (Suc i) =
     (if prefix pat (drop (Suc i) s) then Some (Suc i) else rfind_down s pat i)"

definition str_rfind :: "string \<Rightarrow> string \<Rightarrow> nat option" where
  \<comment> \<open>\<^verbatim>\<open>s.rfind(pat)\<close>: the last occurrence\<close>
  "str_rfind s pat =
     (if length pat \<le> length s then rfind_down s pat (length s - length pat) else None)"

definition isdigit :: "char \<Rightarrow> bool" where
  \<comment> \<open>\<^verbatim>\<open>std::isdigit(static_cast<unsigned char>(c))\<close>\<close>
  "isdigit c = (48 \<le> (of_char c :: nat) \<and> (of_char c :: nat) \<le> 57)"

definition digit_value :: "char \<Rightarrow> nat" where
  \<comment> \<open>\<^verbatim>\<open>c - '0'\<close> for a digit \<open>c\<close>\<close>
  "digit_value c = of_char c - 48"

subsection \<open>ExtractKey (lines 115-128)\<close>

definition ExtractKey :: "string \<Rightarrow> exn + string" where
  "ExtractKey line =
     (case str_find line ''] ['' 0 of
        None \<Rightarrow> Inr line
      | Some first \<Rightarrow>
          (case str_find line ''] ['' (first + 1) of
             None \<Rightarrow> substr_from line (first + 2)
           | Some second \<Rightarrow>
               if length line \<le> second + 2 then Inr line
               else substr_from line (second + 2)))"

subsection \<open>IsTimestampStart (lines 163-173)\<close>

definition IsTimestampStart :: "string \<Rightarrow> nat \<Rightarrow> bool" where
  "IsTimestampStart s i =
     (if length s \<le> i then False
      else if s ! i \<noteq> CHR ''['' then False
      else if length s \<le> i + 6 then False
      else isdigit (s ! (i + 1)) \<and> isdigit (s ! (i + 2)) \<and> isdigit (s ! (i + 3)) \<and>
           isdigit (s ! (i + 4)) \<and> s ! (i + 5) = CHR ''-'')"

subsection \<open>TryParseRepeatSuffix (lines 130-153)\<close>

definition repeat_prefix :: string where
  \<comment> \<open>\<^verbatim>\<open>static const std::string prefix\<close>\<close>
  "repeat_prefix = '' (repeated ''"

definition repeat_suffix :: string where
  \<comment> \<open>\<^verbatim>\<open>static const std::string suffix\<close>\<close>
  "repeat_suffix = '' times)''"

function digits_loop :: "string \<Rightarrow> nat \<Rightarrow> nat \<Rightarrow> nat \<Rightarrow> size_t \<Rightarrow> size_t option" where
  "digits_loop s numStart numLen i value =
     (if i < numLen then
        (let c = s ! (numStart + i) in
         if \<not> isdigit c then None
         else digits_loop s numStart numLen (i + 1) (value * 10 + of_nat (digit_value c)))
      else Some value)"
  by pat_completeness auto
termination
  by (relation "measure (\<lambda>(s, numStart, numLen, i, value). numLen - i)") auto

declare digits_loop.simps [simp del]

definition TryParseRepeatSuffix :: "string \<Rightarrow> (size_t \<times> nat) option" where
  \<comment> \<open>\<open>Some (outCount, suffixStartPos)\<close> when the C++ function returns true\<close>
  "TryParseRepeatSuffix s =
     (if length s < length repeat_prefix + length repeat_suffix + 1 then None
      else
        (case str_rfind s repeat_prefix of
           None \<Rightarrow> None
         | Some pos \<Rightarrow>
             (case str_rfind s repeat_suffix of
                None \<Rightarrow> None
              | Some endp \<Rightarrow>
                  if endp + length repeat_suffix \<noteq> length s then None
                  else if endp \<le> pos + length repeat_prefix then None
                  else
                    (let numStart = pos + length repeat_prefix;
                         numLen = endp - numStart
                     in case digits_loop s numStart numLen 0 0 of
                          None \<Rightarrow> None
                        | Some value \<Rightarrow> if value = 0 then None else Some (value, pos)))))"

subsection \<open>SplitConcatenatedLines (lines 175-191)\<close>

function split_loop :: "string \<Rightarrow> nat \<Rightarrow> nat \<Rightarrow> string list \<Rightarrow> exn + nat \<times> string list" where
  "split_loop raw i start out =
     (if i < length raw then
        (if IsTimestampStart raw i then
           (if start < i then
              (case substr raw start (i - start) of
                 Inl e \<Rightarrow> Inl e
               | Inr seg \<Rightarrow> split_loop raw (i + 1) i (out @ [seg]))
            else split_loop raw (i + 1) i out)
         else split_loop raw (i + 1) start out)
      else Inr (start, out))"
  by pat_completeness auto
termination
  by (relation "measure (\<lambda>(raw, i, start, out). length raw - i)") auto

declare split_loop.simps [simp del]

definition SplitConcatenatedLines :: "string \<Rightarrow> string list \<Rightarrow> exn + string list" where
  "SplitConcatenatedLines raw out =
     (case split_loop raw 1 0 out of
        Inl e \<Rightarrow> Inl e
      | Inr (start, out') \<Rightarrow>
          if start < length raw then
            (case substr_from raw start of
               Inl e \<Rightarrow> Inl e
             | Inr seg \<Rightarrow> Inr (out' @ [seg]))
          else Inr out')"

subsection \<open>CompressAndTrimLogFile (lines 193-265)\<close>

text \<open>
  One call of \<^verbatim>\<open>std::getline\<close> on the rest of the stream: the characters up to the next
  newline, and what follows the newline. It fails (\<open>None\<close>) when nothing at all is left.
\<close>

fun getline :: "string \<Rightarrow> (string \<times> string) option" where
  "getline [] = None"
| "getline (c # cs) =
     (if c = CHR 0x0A then Some ([], cs)
      else
        (case getline cs of
           None \<Rightarrow> Some ([c], [])
         | Some (line, rest) \<Rightarrow> Some (c # line, rest)))"

text \<open>The reading loop, lines 196-206.\<close>

function read_lines :: "string \<Rightarrow> string list \<Rightarrow> exn + string list" where
  "read_lines input lines =
     (case getline input of
        None \<Rightarrow> Inr lines
      | Some (line, rest) \<Rightarrow>
          if line = [] then read_lines rest lines
          else
            (case SplitConcatenatedLines line [] of
               Inl e \<Rightarrow> Inl e
             | Inr parts \<Rightarrow> read_lines rest (lines @ filter (\<lambda>p. p \<noteq> []) parts)))"
  by pat_completeness auto
termination
proof (relation "measure (\<lambda>(input, lines). length input)")
  have shorter: "length rest < length input" if "getline input = Some (line, rest)"
    for input line rest
    using that
    by (induction input arbitrary: line rest) (auto split: if_splits option.splits)
  show "wf (measure (\<lambda>(input, lines). length input))" by simp
  show "((rest, lines), input, lines) \<in> measure (\<lambda>(input, lines). length input)"
    if "getline input = Some x2" and "(line, rest) = x2"
    for input lines x2 line rest
    using that shorter [of input line rest] by simp
  show "((rest, lines @ filter (\<lambda>p. p \<noteq> []) parts), input, lines)
          \<in> measure (\<lambda>(input, lines). length input)"
    if "getline input = Some x2" and "(line, rest) = x2"
    for input lines x2 line rest parts
    using that shorter [of input line rest] by simp
qed

declare read_lines.simps [simp del]

record Record =
  baseLine :: string
  count :: size_t
  lastIndex :: nat

text \<open>
  Lines 219-229: how many occurrences a logical line stands for (1 or the parsed N) and
  the line without its suffix.
\<close>

definition parse_line :: "string \<Rightarrow> exn + size_t \<times> string" where
  "parse_line l =
     (case TryParseRepeatSuffix l of
        Some (parsedCount, suffixStart) \<Rightarrow>
          (case substr l 0 suffixStart of
             Inl e \<Rightarrow> Inl e
           | Inr base \<Rightarrow> Inr (parsedCount, base))
      | None \<Rightarrow> Inr (1, l))"

text \<open>
  The grouping loop, lines 216-243. \<open>indexByKey\<close> is the \<^verbatim>\<open>unordered_map\<close>, \<open>records\<close>
  the vector of pairs; \<open>lastIndex\<close> is an index into \<open>lines\<close>, kept as a \<^typ>\<open>nat\<close>.
\<close>

function group_loop ::
  "string list \<Rightarrow> nat \<Rightarrow> (string \<rightharpoonup> nat) \<Rightarrow> (string \<times> Record) list \<Rightarrow>
     exn + (string \<times> Record) list" where
  "group_loop lines i indexByKey records =
     (if i < length lines then
        (case parse_line (lines ! i) of
           Inl e \<Rightarrow> Inl e
         | Inr (parsedCount, base) \<Rightarrow>
             (case ExtractKey base of
                Inl e \<Rightarrow> Inl e
              | Inr key \<Rightarrow>
                  (case indexByKey key of
                     None \<Rightarrow>
                       group_loop lines (i + 1) (indexByKey(key \<mapsto> length records))
                         (records @
                            [(key, \<lparr>baseLine = base, count = parsedCount, lastIndex = i\<rparr>)])
                   | Some idx \<Rightarrow>
                       group_loop lines (i + 1) indexByKey
                         (records[idx := (fst (records ! idx),
                            (snd (records ! idx))
                              \<lparr>count := count (snd (records ! idx)) + parsedCount,
                               lastIndex := i,
                               baseLine := base\<rparr>)]))))
      else Inr records)"
  by pat_completeness auto
termination
  by (relation "measure (\<lambda>(lines, i, indexByKey, records). length lines - i)") auto

declare group_loop.simps [simp del]

text \<open>Lines 245-251: the stable sort by recency and the cut to the last \<open>maxLines\<close>.\<close>

definition sort_by_recency :: "(string \<times> Record) list \<Rightarrow> (string \<times> Record) list" where
  "sort_by_recency records = sort_key (\<lambda>kv. lastIndex (snd kv)) records"

definition keep_last :: "nat \<Rightarrow> (string \<times> Record) list \<Rightarrow> (string \<times> Record) list" where
  "keep_last maxLines records =
     (if maxLines < length records then drop (length records - maxLines) records
      else records)"

definition compact_records :: "string list \<Rightarrow> nat \<Rightarrow> exn + (string \<times> Record) list" where
  \<comment> \<open>lines 211-251: the records that reach the output loop\<close>
  "compact_records lines maxLines =
     (case group_loop lines 0 Map.empty [] of
        Inl e \<Rightarrow> Inl e
      | Inr records \<Rightarrow> Inr (keep_last maxLines (sort_by_recency records)))"

text \<open>\<^verbatim>\<open>out << rec.count\<close>: a \<^verbatim>\<open>size_t\<close> in decimal.\<close>

definition digit_char :: "nat \<Rightarrow> char" where
  "digit_char d = ''0123456789'' ! d"

fun decimal :: "nat \<Rightarrow> string" where
  "decimal n = (if n < 10 then [digit_char n] else decimal (n div 10) @ [digit_char (n mod 10)])"

declare decimal.simps [simp del]

definition SerializeRecord :: "string \<Rightarrow> size_t \<Rightarrow> string" where
  \<comment> \<open>lines 257-262, the text of one output line before its newline\<close>
  "SerializeRecord base n =
     (if 1 < n then base @ '' (repeated '' @ decimal (unat n) @ '' times)'' else base)"

definition write_records :: "(string \<times> Record) list \<Rightarrow> string" where
  \<comment> \<open>lines 255-263\<close>
  "write_records records =
     concat (map (\<lambda>kv. SerializeRecord (baseLine (snd kv)) (count (snd kv)) @ [CHR 0x0A]) records)"

text \<open>
  The log file as the function meets it: whether the input stream opens, whether the
  truncating output stream opens, and the bytes. The function either leaves the file as it
  is or rewrites it.
\<close>

record log_file =
  opens_for_reading :: bool
  opens_for_writing :: bool
  bytes :: string

datatype outcome = Untouched | Rewritten string

definition CompressAndTrimLogFile :: "log_file \<Rightarrow> nat \<Rightarrow> exn + outcome" where
  "CompressAndTrimLogFile f maxLines =
     (if \<not> opens_for_reading f then Inr Untouched
      else
        (case read_lines (bytes f) [] of
           Inl e \<Rightarrow> Inl e
         | Inr lines \<Rightarrow>
             if lines = [] then Inr Untouched
             else
               (case compact_records lines maxLines of
                  Inl e \<Rightarrow> Inl e
                | Inr records \<Rightarrow>
                    if \<not> opens_for_writing f then Inr Untouched
                    else Inr (Rewritten (write_records records)))))"

definition file_after :: "log_file \<Rightarrow> outcome \<Rightarrow> log_file" where
  "file_after f oc = (case oc of Untouched \<Rightarrow> f | Rewritten s \<Rightarrow> f\<lparr>bytes := s\<rparr>)"

definition compaction_pass :: "log_file \<Rightarrow> nat \<Rightarrow> exn + log_file" where
  \<comment> \<open>the file after one call of \<open>CompressAndTrimLogFile\<close>\<close>
  "compaction_pass f maxLines =
     (case CompressAndTrimLogFile f maxLines of
        Inl e \<Rightarrow> Inl e
      | Inr oc \<Rightarrow> Inr (file_after f oc))"

subsection \<open>Log (lines 290-307): the line it renders and the key it names\<close>

datatype LogLevel = trace | debug | info | warning | error | critical

fun levelStr :: "LogLevel \<Rightarrow> string" where
  "levelStr trace = ''TRACE''"
| "levelStr debug = ''DEBUG''"
| "levelStr info = ''INFO''"
| "levelStr warning = ''WARNING''"
| "levelStr error = ''ERROR''"
| "levelStr critical = ''CRITICAL''"

definition Log_baseLine :: "string \<Rightarrow> LogLevel \<Rightarrow> string \<Rightarrow> string \<Rightarrow> string" where
  \<comment> \<open>lines 298-305, \<open>timestamp\<close> being what \<^verbatim>\<open>GetTimestamp()\<close> returned\<close>
  "Log_baseLine timestamp level message messenger =
     (if messenger \<noteq> []
      then ''['' @ timestamp @ ''] ['' @ messenger @ ''] ['' @ levelStr level @ ''] '' @ message
      else ''['' @ timestamp @ ''] ['' @ levelStr level @ ''] '' @ message)"

definition Log_key :: "LogLevel \<Rightarrow> string \<Rightarrow> string" where
  \<comment> \<open>line 307: "key used to detect duplicates, independent of timestamp and messenger"\<close>
  "Log_key level message = ''['' @ levelStr level @ ''] '' @ message"

subsection \<open>What a logical line stands for\<close>

text \<open>
  The count, the base line and the key the grouping loop computes for a logical line
  (lines 219-230), read off \<open>parse_line\<close> and \<open>ExtractKey\<close>. Neither of the two ever
  returns an exception (\<open>parse_line_total\<close>, \<open>ExtractKey_total\<close> below), so the \<open>Inl\<close>
  branches are never taken.
\<close>

definition line_count :: "string \<Rightarrow> size_t" where
  "line_count l = (case parse_line l of Inr (n, b) \<Rightarrow> n | Inl e \<Rightarrow> 1)"

definition line_base :: "string \<Rightarrow> string" where
  "line_base l = (case parse_line l of Inr (n, b) \<Rightarrow> b | Inl e \<Rightarrow> l)"

definition line_key :: "string \<Rightarrow> string" where
  "line_key l = (case ExtractKey (line_base l) of Inr k \<Rightarrow> k | Inl e \<Rightarrow> line_base l)"

text \<open>
  A logical line is stable when what is left of it after the repeat suffix (its base line)
  is not empty, does not itself end in a valid repeat suffix, and does not end in an
  opening bracket, four digits and a dash behind at least one other character, so that the
  text of a suffix written after it cannot complete a timestamp start.
\<close>

definition stable_line :: "string \<Rightarrow> bool" where
  "stable_line l \<longleftrightarrow>
     line_base l \<noteq> [] \<and> TryParseRepeatSuffix (line_base l) = None \<and>
     \<not> (6 < length (line_base l) \<and>
        IsTimestampStart (line_base l @ '' '') (length (line_base l) - 6))"

subsection \<open>Auxiliary functions of the proofs\<close>

text \<open>The value the digit loop of \<open>TryParseRepeatSuffix\<close> accumulates over a digit string.\<close>

definition digits_fold :: "string \<Rightarrow> size_t \<Rightarrow> size_t" where
  "digits_fold ds v = foldl (\<lambda>v c. v * 10 + of_nat (digit_value c)) v ds"

text \<open>
  The records after the first \<open>i\<close> lines, in closed form: one record per key, in the order
  in which the keys first occur; the record of a key sums the counts of the lines with
  that key and takes index and base line from the last of them.
\<close>

definition occurrences :: "string list \<Rightarrow> nat \<Rightarrow> string \<Rightarrow> nat list" where
  "occurrences lines i k = filter (\<lambda>j. line_key (lines ! j) = k) [0..<i]"

definition record_upto :: "string list \<Rightarrow> nat \<Rightarrow> string \<Rightarrow> Record" where
  "record_upto lines i k =
     \<lparr>baseLine = line_base (lines ! last (occurrences lines i k)),
      count = sum_list (map (\<lambda>j. line_count (lines ! j)) (occurrences lines i k)),
      lastIndex = last (occurrences lines i k)\<rparr>"

definition first_keys :: "string list \<Rightarrow> string list" where
  "first_keys ls = rev (remdups (rev (map line_key ls)))"

definition grouped_upto :: "string list \<Rightarrow> nat \<Rightarrow> (string \<times> Record) list" where
  "grouped_upto lines i = map (\<lambda>k. (k, record_upto lines i k)) (first_keys (take i lines))"

definition grouped :: "string list \<Rightarrow> (string \<times> Record) list" where
  "grouped lines = grouped_upto lines (length lines)"

text \<open>How the \<^verbatim>\<open>unordered_map\<close> relates to the vector of records.\<close>

definition index_of_key :: "(string \<rightharpoonup> nat) \<Rightarrow> (string \<times> Record) list \<Rightarrow> bool" where
  "index_of_key m records \<longleftrightarrow>
     (\<forall>k. case m k of None \<Rightarrow> k \<notin> fst ` set records
          | Some idx \<Rightarrow> idx < length records \<and> fst (records ! idx) = k)"

text \<open>
  A line the splitter leaves whole, and a line as \<open>read_lines\<close> delivers it.
\<close>

definition unsplittable :: "string \<Rightarrow> bool" where
  "unsplittable s \<longleftrightarrow> (\<forall>i. 0 < i \<longrightarrow> \<not> IsTimestampStart s i)"

definition good_line :: "string \<Rightarrow> bool" where
  "good_line l \<longleftrightarrow> l \<noteq> [] \<and> CHR 0x0A \<notin> set l \<and> unsplittable l"

text \<open>
  The text of one output line, and the records the grouping loop builds when it reads the
  lines of its own output again.
\<close>

definition record_line :: "string \<times> Record \<Rightarrow> string" where
  "record_line kv = SerializeRecord (baseLine (snd kv)) (count (snd kv))"

definition reread :: "(string \<times> Record) list \<Rightarrow> (string \<times> Record) list" where
  "reread kept =
     map (\<lambda>j. (fst (kept ! j),
            \<lparr>baseLine = baseLine (snd (kept ! j)),
             count = (if 1 < count (snd (kept ! j)) then count (snd (kept ! j)) else 1),
             lastIndex = j\<rparr>))
       [0..<length kept]"

section \<open>Properties\<close>

subsection \<open>Searching a string\<close>

lemma find_from_Some:
  "find_from pat s i = Some j \<Longrightarrow> i \<le> j \<and> j - i + length pat \<le> length s \<and> prefix pat (drop (j - i) s)"
proof (induction s arbitrary: i)
  case Nil
  then show ?case by (auto split: if_splits)
next
  case (Cons c cs)
  show ?case
  proof (cases "prefix pat (c # cs)")
    case True
    with Cons.prems show ?thesis by (auto dest: prefix_length_le)
  next
    case False
    with Cons.prems have "find_from pat cs (Suc i) = Some j" by simp
    from Cons.IH [OF this]
    have a: "Suc i \<le> j" and b: "j - Suc i + length pat \<le> length cs"
      and c: "prefix pat (drop (j - Suc i) cs)"
      by auto
    from a have "j - i = Suc (j - Suc i)" by arith
    with a b c show ?thesis by simp
  qed
qed

lemma str_find_Some:
  assumes "str_find s pat pos = Some j"
  shows "pos \<le> j" and "j + length pat \<le> length s" and "prefix pat (drop j s)"
proof -
  from assms have le: "pos \<le> length s" and f: "find_from pat (drop pos s) pos = Some j"
    by (auto simp: str_find_def split: if_splits)
  from find_from_Some [OF f]
  have a: "pos \<le> j" and b: "j - pos + length pat \<le> length s - pos"
    and c: "prefix pat (drop (j - pos) (drop pos s))"
    by auto
  show "pos \<le> j" by (rule a)
  show "j + length pat \<le> length s" using a b le by arith
  show "prefix pat (drop j s)" using a c by simp
qed

subsection \<open>The key is a tail of the line\<close>

lemma ExtractKey_drop: "\<exists>n. ExtractKey line = Inr (drop n line)"
proof (cases "str_find line ''] ['' 0")
  case None
  then have "ExtractKey line = Inr (drop 0 line)" by (simp add: ExtractKey_def)
  then show ?thesis by blast
next
  case (Some first)
  note first = str_find_Some(2) [OF Some]
  show ?thesis
  proof (cases "str_find line ''] ['' (first + 1)")
    case None
    with Some first have "ExtractKey line = Inr (drop (first + 2) line)"
      by (simp add: ExtractKey_def substr_from_def)
    then show ?thesis by blast
  next
    case second: (Some second)
    note snd = str_find_Some(2) [OF second]
    show ?thesis
    proof (cases "length line \<le> second + 2")
      case True
      with Some second have "ExtractKey line = Inr (drop 0 line)"
        by (simp add: ExtractKey_def)
      then show ?thesis by blast
    next
      case False
      with Some second have "ExtractKey line = Inr (drop (second + 2) line)"
        by (simp add: ExtractKey_def substr_from_def)
      then show ?thesis by blast
    qed
  qed
qed

lemma ExtractKey_cases:
  "ExtractKey line =
     (case str_find line ''] ['' 0 of
        None \<Rightarrow> Inr line
      | Some first \<Rightarrow>
          (case str_find line ''] ['' (first + 1) of
             None \<Rightarrow> Inr (drop (first + 2) line)
           | Some second \<Rightarrow> Inr (drop (second + 2) line)))"
proof (cases "str_find line ''] ['' 0")
  case None
  then show ?thesis by (simp add: ExtractKey_def)
next
  case (Some first)
  note first = str_find_Some(2) [OF Some]
  show ?thesis
  proof (cases "str_find line ''] ['' (first + 1)")
    case None
    with Some first show ?thesis by (simp add: ExtractKey_def substr_from_def)
  next
    case second: (Some second)
    from str_find_Some(2) [OF second] have "\<not> length line \<le> second + 2" by simp
    with Some second show ?thesis by (simp add: ExtractKey_def substr_from_def)
  qed
qed

text \<open>
  Claim C9. For every input string, \<open>ExtractKey\<close> returns (it never throws) and the key it
  returns is a contiguous trailing substring of the input: the whole line or a proper
  suffix of it.
\<close>

theorem ExtractKey_suffix: "\<exists>key. ExtractKey line = Inr key \<and> suffix key line"
proof -
  from ExtractKey_drop obtain n where "ExtractKey line = Inr (drop n line)" by blast
  then show ?thesis by (auto simp: suffix_drop)
qed

subsection \<open>What counts as the start of a timestamp\<close>

lemma IsTimestampStart_iff:
  "IsTimestampStart s i \<longleftrightarrow>
     i + 6 < length s \<and> s ! i = CHR ''['' \<and> isdigit (s ! (i + 1)) \<and> isdigit (s ! (i + 2)) \<and>
     isdigit (s ! (i + 3)) \<and> isdigit (s ! (i + 4)) \<and> s ! (i + 5) = CHR ''-''"
  by (auto simp: IsTimestampStart_def)

text \<open>
  Claim C7. \<open>IsTimestampStart s i\<close> should hold exactly when \<open>s ! i\<close> is an opening bracket,
  the next four characters are digits and the sixth is a dash, all six inside the string.
  The function asks for a seventh character as well: in \<open>x[2024-\<close> every one of the six
  positions 1..6 exists and matches, and the function still answers no.
\<close>

theorem IsTimestampStart_short_tail:
  "length ''x[2024-'' = 7 \<and> ''x[2024-'' ! 1 = CHR ''['' \<and> isdigit (''x[2024-'' ! 2) \<and>
   isdigit (''x[2024-'' ! 3) \<and> isdigit (''x[2024-'' ! 4) \<and> isdigit (''x[2024-'' ! 5) \<and>
   ''x[2024-'' ! 6 = CHR ''-'' \<and> \<not> IsTimestampStart ''x[2024-'' 1"
  by (simp add: IsTimestampStart_def isdigit_def)

subsection \<open>The key of a rendered line\<close>

text \<open>
  Claim C3. Two lines rendered by \<open>Log\<close> should have equal keys exactly when level and
  message agree, whatever the timestamp and the messenger. For a message that starts with
  a bracket and no messenger, \<open>ExtractKey\<close> takes the boundary between level and message
  for the second one: the message logged at the levels \<open>info\<close> and \<open>error\<close> gets one key,
  the message alone, while the keys \<open>Log\<close> itself names differ; and the same level and
  message with a messenger get another key than without.
\<close>

theorem ExtractKey_bracketed_message:
  "ExtractKey (Log_baseLine ''2024-01-01 00:00:00'' info ''[gpu] ok'' []) = Inr ''[gpu] ok'' \<and>
   ExtractKey (Log_baseLine ''2024-01-01 00:00:00'' error ''[gpu] ok'' []) = Inr ''[gpu] ok'' \<and>
   ExtractKey (Log_baseLine ''2024-01-01 00:00:00'' info ''[gpu] ok'' ''render'') =
     Inr ''[INFO] [gpu] ok'' \<and>
   Log_key info ''[gpu] ok'' = ''[INFO] [gpu] ok'' \<and>
   Log_key error ''[gpu] ok'' = ''[ERROR] [gpu] ok''"
  by (simp add: ExtractKey_def Log_baseLine_def Log_key_def str_find_def substr_from_def)

subsection \<open>Splitting a raw line\<close>

lemma IsTimestampStart_segment:
  assumes "IsTimestampStart (take n (drop s raw)) i"
  shows "IsTimestampStart raw (s + i)" and "i + 6 < n"
proof -
  let ?seg = "take n (drop s raw)"
  from assms have len: "i + 6 < length ?seg" by (simp add: IsTimestampStart_iff)
  then have n: "i + 6 < n" and r: "s + i + 6 < length raw" by auto
  have nth: "?seg ! (i + d) = raw ! (s + i + d)" if "d \<le> 5" for d
    using that n r by (simp add: add.assoc)
  from nth [of 0] nth [of 1] nth [of 2] nth [of 3] nth [of 4] nth [of 5] assms r
  show "IsTimestampStart raw (s + i)" by (simp add: IsTimestampStart_iff)
  show "i + 6 < n" by (rule n)
qed

lemma unsplittable_segment:
  assumes "\<And>j. s < j \<Longrightarrow> j < s + n \<Longrightarrow> \<not> IsTimestampStart raw j"
  shows "unsplittable (take n (drop s raw))"
  unfolding unsplittable_def
proof (intro allI impI notI)
  fix i assume i: "0 < i" and its: "IsTimestampStart (take n (drop s raw)) i"
  from IsTimestampStart_segment [OF its] have "IsTimestampStart raw (s + i)" "i + 6 < n" .
  with assms [of "s + i"] i show False by simp
qed

lemma unsplittable_take: "unsplittable l \<Longrightarrow> unsplittable (take n l)"
proof -
  assume u: "unsplittable l"
  have "unsplittable (take n (drop 0 l))"
    by (rule unsplittable_segment) (use u in \<open>simp add: unsplittable_def\<close>)
  then show ?thesis by simp
qed

lemma split_loop_spec:
  "start < i \<Longrightarrow> i \<le> length raw \<Longrightarrow>
   (\<And>j. start < j \<Longrightarrow> j < i \<Longrightarrow> \<not> IsTimestampStart raw j) \<Longrightarrow>
   \<exists>start' segs. split_loop raw i start out = Inr (start', out @ segs) \<and> start \<le> start' \<and>
      start' < length raw \<and> concat segs = take (start' - start) (drop start raw) \<and>
      [] \<notin> set segs \<and> (\<forall>seg \<in> set segs. unsplittable seg) \<and>
      (\<forall>j. start' < j \<and> j < length raw \<longrightarrow> \<not> IsTimestampStart raw j)"
proof (induction "length raw - i" arbitrary: i start out)
  case 0
  then have "split_loop raw i start out = Inr (start, out @ [])"
    by (subst split_loop.simps) simp
  moreover from 0 have "\<forall>j. start < j \<and> j < length raw \<longrightarrow> \<not> IsTimestampStart raw j" by simp
  ultimately show ?case using 0 by fastforce
next
  case (Suc n)
  then have i: "i < length raw" by arith
  from Suc.hyps(2) have n: "n = length raw - (i + 1)" by arith
  show ?case
  proof (cases "IsTimestampStart raw i")
    case False
    have none: "\<not> IsTimestampStart raw j" if "start < j" "j < i + 1" for j
      using that False Suc.prems(3) [of j] by (cases "j = i") auto
    from Suc.hyps(1) [OF n, of start out] Suc.prems(1) i none
    obtain start' segs where
      "split_loop raw (i + 1) start out = Inr (start', out @ segs)" "start \<le> start'"
      "start' < length raw" "concat segs = take (start' - start) (drop start raw)"
      "[] \<notin> set segs" "\<forall>seg \<in> set segs. unsplittable seg"
      "\<forall>j. start' < j \<and> j < length raw \<longrightarrow> \<not> IsTimestampStart raw j"
      by auto
    with False i show ?thesis by (subst split_loop.simps) auto
  next
    case True
    let ?seg = "take (i - start) (drop start raw)"
    from Suc.hyps(1) [OF n, of i "out @ [?seg]"] i
    obtain start' segs where r:
      "split_loop raw (i + 1) i (out @ [?seg]) = Inr (start', (out @ [?seg]) @ segs)"
      "i \<le> start'" "start' < length raw" "concat segs = take (start' - i) (drop i raw)"
      "[] \<notin> set segs" "\<forall>seg \<in> set segs. unsplittable seg"
      "\<forall>j. start' < j \<and> j < length raw \<longrightarrow> \<not> IsTimestampStart raw j"
      by auto
    have step: "split_loop raw i start out = Inr (start', out @ (?seg # segs))"
      using True i Suc.prems r(1) by (subst split_loop.simps) (simp add: substr_def)
    have ne: "?seg \<noteq> []" using Suc.prems i by simp
    have us: "unsplittable ?seg"
      by (rule unsplittable_segment) (use Suc.prems in auto)
    have "take (start' - start) (drop start raw) =
          take (i - start) (drop start raw) @ take (start' - i) (drop i raw)"
    proof -
      have "start' - start = (i - start) + (start' - i)" using Suc.prems r(2) by arith
      then have "take (start' - start) (drop start raw) =
        take (i - start) (drop start raw) @ take (start' - i) (drop (i - start) (drop start raw))"
        by (simp only: take_add)
      then show ?thesis using Suc.prems by simp
    qed
    with r ne us step Suc.prems(1) show ?thesis
      by (intro exI [of _ start'] exI [of _ "?seg # segs"]) auto
  qed
qed

lemma SplitConcatenatedLines_segments:
  "\<exists>segs. SplitConcatenatedLines raw out = Inr (out @ segs) \<and> concat segs = raw \<and>
     [] \<notin> set segs \<and> (segs = []) = (raw = []) \<and> (\<forall>seg \<in> set segs. unsplittable seg)"
proof (cases "raw = []")
  case True
  then have "SplitConcatenatedLines raw out = Inr (out @ [])"
    by (simp add: SplitConcatenatedLines_def split_loop.simps [of "[]"])
  with True show ?thesis by fastforce
next
  case False
  then have "0 < (1::nat)" "1 \<le> length raw" by (auto simp: Suc_le_eq)
  from split_loop_spec [OF this, of out]
  obtain start' segs where r: "split_loop raw 1 0 out = Inr (start', out @ segs)"
    "start' < length raw" "concat segs = take start' raw" "[] \<notin> set segs"
    "\<forall>seg \<in> set segs. unsplittable seg"
    "\<forall>j. start' < j \<and> j < length raw \<longrightarrow> \<not> IsTimestampStart raw j"
    by auto
  have "unsplittable (take (length raw - start') (drop start' raw))"
    by (rule unsplittable_segment) (use r(2,6) in auto)
  then have last: "unsplittable (drop start' raw)" by simp
  from r have "SplitConcatenatedLines raw out = Inr (out @ (segs @ [drop start' raw]))"
    by (simp add: SplitConcatenatedLines_def substr_from_def)
  moreover have "concat (segs @ [drop start' raw]) = raw" using r by simp
  moreover have "[] \<notin> set (segs @ [drop start' raw])" using r by simp
  moreover have "\<forall>seg \<in> set (segs @ [drop start' raw]). unsplittable seg"
    using r(5) last by simp
  ultimately show ?thesis using False by blast
qed

lemma split_loop_no_start:
  "(\<And>j. i \<le> j \<Longrightarrow> \<not> IsTimestampStart raw j) \<Longrightarrow> split_loop raw i start out = Inr (start, out)"
proof (induction "length raw - i" arbitrary: i)
  case 0
  then show ?case by (subst split_loop.simps) simp
next
  case (Suc n)
  from Suc.hyps(2) have "n = length raw - (i + 1)" by arith
  from Suc.hyps(1) [OF this] Suc.prems
  have "split_loop raw (i + 1) start out = Inr (start, out)" by simp
  with Suc.prems [of i] show ?case by (subst split_loop.simps) simp
qed

lemma SplitConcatenatedLines_unsplittable:
  assumes "l \<noteq> []" and "unsplittable l"
  shows "SplitConcatenatedLines l out = Inr (out @ [l])"
proof -
  have "split_loop l 1 0 out = Inr (0, out)"
    by (rule split_loop_no_start) (use assms(2) in \<open>simp add: unsplittable_def\<close>)
  with assms(1) show ?thesis by (simp add: SplitConcatenatedLines_def substr_from_def)
qed

text \<open>
  Claim C6. For every raw line the splitter returns, behind what \<open>out\<close> held, segments
  whose concatenation in order is the raw line; no segment is empty, and an empty raw line
  gives no segment at all.
\<close>

theorem SplitConcatenatedLines_partition:
  "\<exists>segs. SplitConcatenatedLines raw out = Inr (out @ segs) \<and> concat segs = raw \<and>
     [] \<notin> set segs \<and> (segs = []) = (raw = [])"
  using SplitConcatenatedLines_segments [of raw out] by blast

subsection \<open>The repeat suffix\<close>

lemma rfind_down_last:
  "p \<le> n \<Longrightarrow> prefix pat (drop p s) \<Longrightarrow>
   (\<And>j. p < j \<Longrightarrow> j \<le> n \<Longrightarrow> \<not> prefix pat (drop j s)) \<Longrightarrow>
   rfind_down s pat n = Some p"
proof (induction n)
  case 0
  then show ?case by simp
next
  case (Suc n)
  show ?case
  proof (cases "p = Suc n")
    case True
    with Suc.prems show ?thesis by simp
  next
    case False
    with Suc.prems have "p \<le> n" "\<not> prefix pat (drop (Suc n) s)" by auto
    with Suc show ?thesis by simp
  qed
qed

lemma str_rfind_last:
  assumes "p + length pat \<le> length s" and "prefix pat (drop p s)"
    and "\<And>j. p < j \<Longrightarrow> j + length pat \<le> length s \<Longrightarrow> \<not> prefix pat (drop j s)"
  shows "str_rfind s pat = Some p"
proof -
  have "rfind_down s pat (length s - length pat) = Some p"
    using assms by (intro rfind_down_last) auto
  with assms(1) show ?thesis by (simp add: str_rfind_def)
qed

lemma str_rfind_at_end:
  assumes "s = t @ pat"
  shows "str_rfind s pat = Some (length t)"
  using assms by (intro str_rfind_last) auto

lemma less_10_cases:
  "d < 10 \<Longrightarrow> d = 0 \<or> d = 1 \<or> d = 2 \<or> d = 3 \<or> d = 4 \<or> d = 5 \<or> d = 6 \<or> d = 7 \<or>
     d = 8 \<or> d = (9::nat)"
  by arith

lemma isdigit_digit_char: "d < 10 \<Longrightarrow> isdigit (digit_char d)"
  by (drule less_10_cases) (auto simp: isdigit_def digit_char_def)

lemma digit_value_digit_char: "d < 10 \<Longrightarrow> digit_value (digit_char d) = d"
  by (drule less_10_cases) (auto simp: digit_value_def digit_char_def)

lemma decimal_digits: "\<forall>c \<in> set (decimal n). isdigit c"
proof (induction n rule: decimal.induct)
  case (1 n)
  then show ?case by (subst decimal.simps) (auto simp: isdigit_digit_char)
qed

lemma decimal_nonempty: "decimal n \<noteq> []"
  by (subst decimal.simps) simp

lemma digits_fold_decimal: "digits_fold (decimal n) 0 = of_nat n"
proof (induction n rule: decimal.induct)
  case (1 n)
  show ?case
  proof (cases "n < 10")
    case True
    then show ?thesis
      by (subst decimal.simps) (simp add: digits_fold_def digit_value_digit_char)
  next
    case False
    with 1 have ih: "digits_fold (decimal (n div 10)) 0 = of_nat (n div 10)" by simp
    have "digits_fold (decimal n) 0 = (of_nat (n div 10) :: size_t) * 10 + of_nat (n mod 10)"
      using False ih by (subst decimal.simps) (simp add: digits_fold_def digit_value_digit_char)
    also have "\<dots> = of_nat (n div 10 * 10 + n mod 10)"
      by (simp only: of_nat_add of_nat_mult of_nat_numeral)
    also have "n div 10 * 10 + n mod 10 = n" by simp
    finally show ?thesis .
  qed
qed

lemma digits_loop_fold:
  "i \<le> numLen \<Longrightarrow> numStart + numLen \<le> length s \<Longrightarrow>
   \<forall>c \<in> set (take (numLen - i) (drop (numStart + i) s)). isdigit c \<Longrightarrow>
   digits_loop s numStart numLen i v =
     Some (digits_fold (take (numLen - i) (drop (numStart + i) s)) v)"
proof (induction "numLen - i" arbitrary: i v)
  case 0
  then show ?case by (subst digits_loop.simps) (simp add: digits_fold_def)
next
  case (Suc n)
  then have i: "i < numLen" by arith
  with Suc.prems have len: "numStart + i < length s" by arith
  have tk: "take (numLen - i) (drop (numStart + i) s) =
      s ! (numStart + i) # take (numLen - (i + 1)) (drop (numStart + (i + 1)) s)"
  proof -
    from i have "numLen - i = Suc (numLen - (i + 1))" by arith
    moreover from len have "drop (numStart + i) s = s ! (numStart + i) # drop (numStart + (i + 1)) s"
      by (simp add: Cons_nth_drop_Suc)
    ultimately show ?thesis by simp
  qed
  from Suc.hyps(2) have n: "n = numLen - (i + 1)" by arith
  have dg: "isdigit (s ! (numStart + i))" using Suc.prems(3) tk by simp
  have rest: "\<forall>c \<in> set (take (numLen - (i + 1)) (drop (numStart + (i + 1)) s)). isdigit c"
    using Suc.prems(3) tk by simp
  from i have "i + 1 \<le> numLen" by arith
  from Suc.hyps(1) [OF n this Suc.prems(2) rest]
  have "digits_loop s numStart numLen (i + 1) (v * 10 + of_nat (digit_value (s ! (numStart + i)))) =
     Some (digits_fold (take (numLen - (i + 1)) (drop (numStart + (i + 1)) s))
        (v * 10 + of_nat (digit_value (s ! (numStart + i)))))" .
  with i dg show ?case
    by (subst digits_loop.simps) (simp add: tk digits_fold_def del: take_Suc_Cons)
qed

lemma isdigit_not_space_paren: "isdigit c \<Longrightarrow> c \<noteq> CHR '' '' \<and> c \<noteq> CHR ''(''"
  by (auto simp: isdigit_def)

lemma no_repeat_prefix_inside:
  assumes dig: "\<forall>c \<in> set ds. isdigit c" and ne: "ds \<noteq> []"
    and k: "0 < k" "k + length repeat_prefix \<le> length (repeat_prefix @ ds @ repeat_suffix)"
  shows "\<not> prefix repeat_prefix (drop k (repeat_prefix @ ds @ repeat_suffix))"
proof (cases "k < 11")
  case True
  from ne obtain d ds' where ds: "ds = d # ds'" by (cases ds) auto
  with dig have d: "d \<noteq> CHR ''(''" using isdigit_not_space_paren by auto
  from True k(1) have "k = 1 \<or> k = 2 \<or> k = 3 \<or> k = 4 \<or> k = 5 \<or> k = 6 \<or> k = 7 \<or> k = 8 \<or>
      k = 9 \<or> k = 10"
    by arith
  then show ?thesis using d by (auto simp: repeat_prefix_def ds)
next
  case False
  then have k11: "length repeat_prefix \<le> k" by (simp add: repeat_prefix_def)
  from k(2) have "k - length repeat_prefix < length ds"
    using k11 by (simp add: repeat_prefix_def repeat_suffix_def)
  then obtain c cs where c: "drop (k - length repeat_prefix) ds = c # cs"
    by (cases "drop (k - length repeat_prefix) ds") auto
  then have "c \<in> set ds" by (metis in_set_dropD list.set_intros(1))
  with dig have sp: "c \<noteq> CHR '' ''" using isdigit_not_space_paren by auto
  have "drop k (repeat_prefix @ ds @ repeat_suffix) = (c # cs) @ drop (k - length repeat_prefix - length ds) repeat_suffix"
    using k11 c by simp
  then show ?thesis using sp by (simp add: repeat_prefix_def)
qed

lemma TryParseRepeatSuffix_digits:
  assumes dig: "\<forall>c \<in> set ds. isdigit c" and ne: "ds \<noteq> []" and nz: "digits_fold ds 0 \<noteq> 0"
  shows "TryParseRepeatSuffix (base @ repeat_prefix @ ds @ repeat_suffix) =
           Some (digits_fold ds 0, length base)"
proof -
  let ?s = "base @ repeat_prefix @ ds @ repeat_suffix"
  have pos: "str_rfind ?s repeat_prefix = Some (length base)"
  proof (rule str_rfind_last)
    show "length base + length repeat_prefix \<le> length ?s" by simp
    show "prefix repeat_prefix (drop (length base) ?s)" by simp
    fix j assume j: "length base < j" "j + length repeat_prefix \<le> length ?s"
    then have "drop j ?s = drop (j - length base) (repeat_prefix @ ds @ repeat_suffix)"
      by simp
    moreover have "\<not> prefix repeat_prefix (drop (j - length base) (repeat_prefix @ ds @ repeat_suffix))"
      using j by (intro no_repeat_prefix_inside [OF dig ne]) auto
    ultimately show "\<not> prefix repeat_prefix (drop j ?s)" by simp
  qed
  have "?s = (base @ repeat_prefix @ ds) @ repeat_suffix" by simp
  then have "str_rfind ?s repeat_suffix = Some (length (base @ repeat_prefix @ ds))"
    by (rule str_rfind_at_end)
  then have endp: "str_rfind ?s repeat_suffix = Some (length base + length repeat_prefix + length ds)"
    by (simp add: add.assoc)
  have "digits_loop ?s (length base + length repeat_prefix) (length ds) 0 0 =
      Some (digits_fold (take (length ds - 0) (drop (length base + length repeat_prefix + 0) ?s)) 0)"
    by (rule digits_loop_fold) (use dig in auto)
  then have loop: "digits_loop ?s (length base + length repeat_prefix) (length ds) 0 0 =
      Some (digits_fold ds 0)"
    by simp
  from ne have "0 < length ds" by simp
  then show ?thesis
    using nz by (simp add: TryParseRepeatSuffix_def pos endp loop)
qed

lemma SerializeRecord_repeated:
  "1 < n \<Longrightarrow> SerializeRecord base n = base @ repeat_prefix @ decimal (unat n) @ repeat_suffix"
  by (simp add: SerializeRecord_def repeat_prefix_def repeat_suffix_def)

lemma TryParseRepeatSuffix_SerializeRecord:
  assumes "1 < n"
  shows "TryParseRepeatSuffix (SerializeRecord base n) = Some (n, length base)"
proof -
  have v: "digits_fold (decimal (unat n)) 0 = n" by (simp add: digits_fold_decimal)
  from assms have "n \<noteq> 0" by auto
  with v have "digits_fold (decimal (unat n)) 0 \<noteq> 0" by simp
  from TryParseRepeatSuffix_digits [OF decimal_digits decimal_nonempty this, of base]
  show ?thesis using assms v by (simp add: SerializeRecord_repeated)
qed

text \<open>
  Claim C4. A record with count 1 is written as its base line, nothing added. For a
  count above 1 the line written is the base line followed by the repeat suffix, and
  parsing that line gives the count back and the base line's length as the place where
  the suffix starts, so the loop of the compaction recovers (count, base line).
\<close>

theorem repeat_suffix_round_trip:
  "SerializeRecord base 1 = base \<and>
   (1 < n \<longrightarrow> TryParseRepeatSuffix (SerializeRecord base n) = Some (n, length base) \<and>
      parse_line (SerializeRecord base n) = Inr (n, base))"
proof -
  have "parse_line (SerializeRecord base n) = Inr (n, base)" if "1 < n"
    using that TryParseRepeatSuffix_SerializeRecord [OF that, of base]
    by (simp add: parse_line_def substr_def SerializeRecord_repeated)
  then show ?thesis
    using TryParseRepeatSuffix_SerializeRecord [of n base] by (simp add: SerializeRecord_def)
qed

theorem repeat_suffix_round_trip_witness:
  "(1 :: size_t) < 2 \<and>
   TryParseRepeatSuffix ''[2024-01-01 00:00:00] [INFO] Started (repeated 2 times)'' = Some (2, length ''[2024-01-01 00:00:00] [INFO] Started'') \<and>
   parse_line ''[2024-01-01 00:00:00] [INFO] Started (repeated 2 times)'' =
     Inr (2, ''[2024-01-01 00:00:00] [INFO] Started'')"
  using repeat_suffix_round_trip [of "''[2024-01-01 00:00:00] [INFO] Started''" 2]
  by (simp add: SerializeRecord_def decimal.simps [of 2] digit_char_def)

subsection \<open>The grouping loop in closed form\<close>

lemma parse_line_total: "parse_line l = Inr (line_count l, line_base l)"
  by (auto simp: parse_line_def line_count_def line_base_def substr_def split: option.splits)

lemma ExtractKey_total: "ExtractKey (line_base l) = Inr (line_key l)"
  using ExtractKey_drop [of "line_base l"] by (auto simp: line_key_def)

lemma occurrences_Suc:
  "occurrences lines (Suc i) k =
     occurrences lines i k @ (if line_key (lines ! i) = k then [i] else [])"
  by (simp add: occurrences_def)

lemma occurrences_empty_iff:
  "i \<le> length lines \<Longrightarrow> occurrences lines i k = [] \<longleftrightarrow> k \<notin> line_key ` set (take i lines)"
proof -
  assume "i \<le> length lines"
  then have "set (take i lines) = (!) lines ` {0..<i}" by (simp add: nth_image)
  then show ?thesis by (auto simp: occurrences_def filter_empty_conv)
qed

lemma first_keys_snoc:
  "first_keys (ls @ [l]) =
     (if line_key l \<in> line_key ` set ls then first_keys ls else first_keys ls @ [line_key l])"
  by (simp add: first_keys_def)

lemma set_first_keys: "set (first_keys ls) = line_key ` set ls"
  by (simp add: first_keys_def)

lemma distinct_first_keys: "distinct (first_keys ls)"
  by (simp add: first_keys_def)

lemma set_occurrences:
  "set (occurrences lines i k) = {j. j < i \<and> line_key (lines ! j) = k}"
  by (auto simp: occurrences_def)

lemma record_upto_first:
  assumes "occurrences lines i k = []" and "line_key (lines ! i) = k"
  shows "record_upto lines (Suc i) k =
           \<lparr>baseLine = line_base (lines ! i), count = line_count (lines ! i), lastIndex = i\<rparr>"
  using assms by (simp add: record_upto_def occurrences_Suc)

lemma record_upto_again:
  assumes "line_key (lines ! i) = k"
  shows "record_upto lines (Suc i) k =
           (record_upto lines i k)
             \<lparr>count := count (record_upto lines i k) + line_count (lines ! i),
              lastIndex := i, baseLine := line_base (lines ! i)\<rparr>"
  using assms by (simp add: record_upto_def occurrences_Suc)

lemma record_upto_other:
  assumes "line_key (lines ! i) \<noteq> k"
  shows "record_upto lines (Suc i) k = record_upto lines i k"
  using assms by (simp add: record_upto_def occurrences_Suc)

lemma grouped_upto_Suc_new:
  assumes i: "i < length lines" and new: "line_key (lines ! i) \<notin> line_key ` set (take i lines)"
  shows "grouped_upto lines (Suc i) =
           grouped_upto lines i @
             [(line_key (lines ! i),
               \<lparr>baseLine = line_base (lines ! i), count = line_count (lines ! i), lastIndex = i\<rparr>)]"
proof -
  from i have tk: "take (Suc i) lines = take i lines @ [lines ! i]"
    by (simp add: take_Suc_conv_app_nth)
  from i new have occ: "occurrences lines i (line_key (lines ! i)) = []"
    by (simp add: occurrences_empty_iff)
  have "record_upto lines (Suc i) k = record_upto lines i k"
    if "k \<in> set (first_keys (take i lines))" for k
  proof -
    from that new have "line_key (lines ! i) \<noteq> k" by (auto simp: set_first_keys)
    then show ?thesis by (rule record_upto_other)
  qed
  then have "map (\<lambda>k. (k, record_upto lines (Suc i) k)) (first_keys (take i lines)) =
        map (\<lambda>k. (k, record_upto lines i k)) (first_keys (take i lines))"
    by simp
  then show ?thesis
    using new by (simp add: grouped_upto_def tk first_keys_snoc record_upto_first [OF occ])
qed

lemma grouped_upto_Suc_old:
  assumes i: "i < length lines" and idx: "idx < length (grouped_upto lines i)"
    and key: "fst (grouped_upto lines i ! idx) = line_key (lines ! i)"
  shows "grouped_upto lines (Suc i) =
           (grouped_upto lines i)[idx := (fst (grouped_upto lines i ! idx),
              (snd (grouped_upto lines i ! idx))
                \<lparr>count := count (snd (grouped_upto lines i ! idx)) + line_count (lines ! i),
                 lastIndex := i, baseLine := line_base (lines ! i)\<rparr>)]"
proof -
  let ?ks = "first_keys (take i lines)"
  from idx have idx': "idx < length ?ks" by (simp add: grouped_upto_def)
  with key have k: "?ks ! idx = line_key (lines ! i)" by (simp add: grouped_upto_def)
  with idx' have old: "line_key (lines ! i) \<in> line_key ` set (take i lines)"
    using set_first_keys [of "take i lines"] nth_mem [OF idx'] by auto
  from i have tk: "take (Suc i) lines = take i lines @ [lines ! i]"
    by (simp add: take_Suc_conv_app_nth)
  have fk: "first_keys (take (Suc i) lines) = ?ks" using old by (simp add: tk first_keys_snoc)
  show ?thesis
  proof (rule nth_equalityI)
    show "length (grouped_upto lines (Suc i)) = length ((grouped_upto lines i)[idx := (fst (grouped_upto lines i ! idx),
              (snd (grouped_upto lines i ! idx))
                \<lparr>count := count (snd (grouped_upto lines i ! idx)) + line_count (lines ! i),
                 lastIndex := i, baseLine := line_base (lines ! i)\<rparr>)])"
      by (simp add: grouped_upto_def fk)
  next
    fix j assume "j < length (grouped_upto lines (Suc i))"
    then have j: "j < length ?ks" by (simp add: grouped_upto_def fk)
    show "grouped_upto lines (Suc i) ! j = (grouped_upto lines i)[idx := (fst (grouped_upto lines i ! idx),
              (snd (grouped_upto lines i ! idx))
                \<lparr>count := count (snd (grouped_upto lines i ! idx)) + line_count (lines ! i),
                 lastIndex := i, baseLine := line_base (lines ! i)\<rparr>)] ! j"
    proof (cases "j = idx")
      case True
      with j k show ?thesis
        by (simp add: grouped_upto_def fk record_upto_again)
    next
      case False
      have "(?ks ! j = ?ks ! idx) = (j = idx)"
        using distinct_first_keys j idx' by (rule nth_eq_iff_index_eq)
      with False k have "?ks ! j \<noteq> line_key (lines ! i)" by simp
      with j False show ?thesis
        by (simp add: grouped_upto_def fk record_upto_other)
    qed
  qed
qed

lemma index_of_key_empty: "index_of_key Map.empty []"
  by (simp add: index_of_key_def)

lemma index_of_key_new:
  assumes "index_of_key m records" and "m k = None"
  shows "index_of_key (m(k \<mapsto> length records)) (records @ [(k, r)])"
  unfolding index_of_key_def
proof
  fix k'
  from assms have a: "case m k' of None \<Rightarrow> k' \<notin> fst ` set records
      | Some idx \<Rightarrow> idx < length records \<and> fst (records ! idx) = k'"
    by (simp add: index_of_key_def)
  show "case (m(k \<mapsto> length records)) k' of None \<Rightarrow> k' \<notin> fst ` set (records @ [(k, r)])
      | Some idx \<Rightarrow> idx < length (records @ [(k, r)]) \<and> fst ((records @ [(k, r)]) ! idx) = k'"
    using a by (cases "k' = k") (auto simp: nth_append split: option.splits)
qed

lemma index_of_key_update:
  assumes "index_of_key m records" and "idx < length records"
  shows "index_of_key m (records[idx := (fst (records ! idx), r)])"
proof -
  have "map fst (records[idx := (fst (records ! idx), r)]) = map fst records"
    using assms(2) by (simp add: map_update list_update_same_conv)
  then have "fst ` set (records[idx := (fst (records ! idx), r)]) = fst ` set records"
    and "\<And>j. j < length records \<Longrightarrow> fst (records[idx := (fst (records ! idx), r)] ! j) = fst (records ! j)"
    by (metis list.set_map, metis nth_map length_list_update)
  then have same: "fst ` set (records[idx := (fst (records ! idx), r)]) = fst ` set records"
    "\<And>j. j < length records \<Longrightarrow>
       fst (records[idx := (fst (records ! idx), r)] ! j) = fst (records ! j)"
    by auto
  show ?thesis
    unfolding index_of_key_def
  proof
    fix k
    from assms(1) have a: "case m k of None \<Rightarrow> k \<notin> fst ` set records
        | Some idx \<Rightarrow> idx < length records \<and> fst (records ! idx) = k"
      by (simp add: index_of_key_def)
    show "case m k of None \<Rightarrow> k \<notin> fst ` set (records[idx := (fst (records ! idx), r)])
        | Some j \<Rightarrow> j < length (records[idx := (fst (records ! idx), r)]) \<and>
            fst (records[idx := (fst (records ! idx), r)] ! j) = k"
    proof (cases "m k")
      case None
      with a show ?thesis by (simp add: same(1))
    next
      case (Some j)
      with a show ?thesis by (simp add: same(2))
    qed
  qed
qed

lemma fst_set_grouped_upto: "fst ` set (grouped_upto lines i) = line_key ` set (take i lines)"
  by (simp add: grouped_upto_def image_image set_first_keys)

lemma group_loop_grouped_upto:
  "i \<le> length lines \<Longrightarrow> index_of_key m (grouped_upto lines i) \<Longrightarrow>
   group_loop lines i m (grouped_upto lines i) = Inr (grouped_upto lines (length lines))"
proof (induction "length lines - i" arbitrary: i m)
  case 0
  then show ?case by (subst group_loop.simps) simp
next
  case (Suc n)
  then have i: "i < length lines" by arith
  from Suc.hyps(2) have n: "n = length lines - Suc i" by arith
  from i have le: "Suc i \<le> length lines" by arith
  let ?l = "lines ! i"
  let ?rs = "grouped_upto lines i"
  from Suc.prems(2) have at: "case m (line_key ?l) of None \<Rightarrow> line_key ?l \<notin> fst ` set ?rs
      | Some idx \<Rightarrow> idx < length ?rs \<and> fst (?rs ! idx) = line_key ?l"
    by (simp add: index_of_key_def)
  show ?case
  proof (cases "m (line_key ?l)")
    case None
    with at have new: "line_key ?l \<notin> line_key ` set (take i lines)"
      by (simp add: fst_set_grouped_upto)
    note next_rs = grouped_upto_Suc_new [OF i new]
    have "index_of_key (m(line_key ?l \<mapsto> length ?rs)) (grouped_upto lines (Suc i))"
      unfolding next_rs using Suc.prems(2) None by (rule index_of_key_new)
    from Suc.hyps(1) [OF n le this]
    have "group_loop lines (Suc i) (m(line_key ?l \<mapsto> length ?rs)) (grouped_upto lines (Suc i)) =
        Inr (grouped_upto lines (length lines))" .
    then show ?thesis
      using i None
      by (subst group_loop.simps) (simp add: parse_line_total ExtractKey_total next_rs)
  next
    case (Some idx)
    with at have idx: "idx < length ?rs" and key: "fst (?rs ! idx) = line_key ?l" by auto
    note next_rs = grouped_upto_Suc_old [OF i idx key]
    have "index_of_key m (grouped_upto lines (Suc i))"
      unfolding next_rs using Suc.prems(2) idx by (rule index_of_key_update)
    from Suc.hyps(1) [OF n le this]
    have "group_loop lines (Suc i) m (grouped_upto lines (Suc i)) =
        Inr (grouped_upto lines (length lines))" .
    then show ?thesis
      using i Some
      by (subst group_loop.simps) (simp add: parse_line_total ExtractKey_total next_rs)
  qed
qed

lemma group_loop_eq: "group_loop lines 0 Map.empty [] = Inr (grouped_upto lines (length lines))"
proof -
  have "grouped_upto lines 0 = []" by (simp add: grouped_upto_def first_keys_def)
  with group_loop_grouped_upto [of 0 lines Map.empty] show ?thesis
    by (simp add: index_of_key_empty)
qed

lemma map_fst_grouped: "map fst (grouped lines) = first_keys lines"
  by (simp add: grouped_def grouped_upto_def comp_def)

lemma distinct_keys_grouped: "distinct (map fst (grouped lines))"
  by (simp add: map_fst_grouped distinct_first_keys)

lemma length_grouped: "length (grouped lines) = card (line_key ` set lines)"
proof -
  have "length (grouped lines) = length (first_keys lines)"
    by (metis map_fst_grouped length_map)
  also have "\<dots> = card (set (first_keys lines))"
    using distinct_first_keys by (simp add: distinct_card)
  finally show ?thesis by (simp add: set_first_keys)
qed

lemma map_filter_positions:
  "map (\<lambda>j. f (xs ! j)) (filter (\<lambda>j. P (xs ! j)) [0..<length xs]) = map f (filter P xs)"
proof -
  have "map f (filter P xs) = map f (filter P (map ((!) xs) [0..<length xs]))"
    by (simp add: map_nth)
  also have "\<dots> = map (\<lambda>j. f (xs ! j)) (filter (\<lambda>j. P (xs ! j)) [0..<length xs])"
    by (simp add: filter_map comp_def)
  finally show ?thesis by simp
qed

lemma sorted_le_last: "sorted xs \<Longrightarrow> x \<in> set xs \<Longrightarrow> x \<le> last (xs :: nat list)"
  by (induction xs) auto

lemma grouped_record:
  assumes "(k, r) \<in> set (grouped lines)"
  shows "lastIndex r < length lines"
    and "line_key (lines ! lastIndex r) = k"
    and "\<And>j. lastIndex r < j \<Longrightarrow> j < length lines \<Longrightarrow> line_key (lines ! j) \<noteq> k"
    and "baseLine r = line_base (lines ! lastIndex r)"
    and "count r = sum_list (map line_count (filter (\<lambda>l. line_key l = k) lines))"
proof -
  let ?occ = "occurrences lines (length lines) k"
  from assms have k: "k \<in> line_key ` set lines" and r: "r = record_upto lines (length lines) k"
    by (auto simp: grouped_def grouped_upto_def set_first_keys)
  from k have ne: "?occ \<noteq> []" by (simp add: occurrences_empty_iff)
  have li: "lastIndex r = last ?occ" by (simp add: r record_upto_def)
  from ne have "last ?occ \<in> set ?occ" by simp
  then show "lastIndex r < length lines" and "line_key (lines ! lastIndex r) = k"
    by (simp_all add: li set_occurrences)
  show "baseLine r = line_base (lines ! lastIndex r)" by (simp add: r record_upto_def)
  show "count r = sum_list (map line_count (filter (\<lambda>l. line_key l = k) lines))"
    using map_filter_positions [of line_count lines "\<lambda>l. line_key l = k"]
    by (simp add: r record_upto_def occurrences_def)
  fix j assume j: "lastIndex r < j" "j < length lines"
  have "sorted ?occ" unfolding occurrences_def by (rule sorted_wrt_filter) simp
  show "line_key (lines ! j) \<noteq> k"
  proof
    assume "line_key (lines ! j) = k"
    with j have "j \<in> set ?occ" by (simp add: set_occurrences)
    with \<open>sorted ?occ\<close> have "j \<le> last ?occ" by (rule sorted_le_last)
    with j li show False by simp
  qed
qed

lemma grouped_same_key:
  assumes "(k, r) \<in> set (grouped lines)" and "(k, r') \<in> set (grouped lines)"
  shows "r = r'"
  using assms distinct_keys_grouped [of lines] by (meson eq_key_imp_eq_value)

lemma lastIndex_inj_grouped:
  assumes a: "a \<in> set (grouped lines)" and b: "b \<in> set (grouped lines)"
    and eq: "lastIndex (snd a) = lastIndex (snd b)"
  shows "a = b"
proof -
  obtain k r k' r' where ab: "a = (k, r)" "b = (k', r')" by (cases a, cases b) auto
  from grouped_record(2) [of k r lines] grouped_record(2) [of k' r' lines] a b eq ab
  have "k = k'" by simp
  with grouped_same_key [of k r lines r'] a b ab show ?thesis by simp
qed

lemma distinct_grouped: "distinct (grouped lines)"
  using distinct_keys_grouped [of lines] by (simp add: distinct_map)

lemma sort_by_recency_props:
  "set (sort_by_recency rs) = set rs" "length (sort_by_recency rs) = length rs"
  "distinct (sort_by_recency rs) = distinct rs"
  "sorted (map (\<lambda>kv. lastIndex (snd kv)) (sort_by_recency rs))"
  by (simp_all add: sort_by_recency_def)

lemma keep_last_drop: "keep_last maxLines rs = drop (length rs - maxLines) rs"
  by (simp add: keep_last_def)

lemma length_keep_last: "length (keep_last maxLines rs) = min maxLines (length rs)"
  by (auto simp: keep_last_drop)

lemma compact_records_eq:
  "compact_records lines maxLines = Inr (keep_last maxLines (sort_by_recency (grouped lines)))"
  by (simp add: compact_records_def group_loop_eq grouped_def)

lemma kept_subset: "set (keep_last maxLines (sort_by_recency rs)) \<subseteq> set rs"
  using set_drop_subset [of "length (sort_by_recency rs) - maxLines" "sort_by_recency rs"]
  by (simp add: keep_last_drop sort_by_recency_props)

lemma distinct_keys_kept:
  "distinct (map fst (keep_last maxLines (sort_by_recency (grouped lines))))"
proof -
  let ?kept = "keep_last maxLines (sort_by_recency (grouped lines))"
  have "distinct ?kept"
    by (simp add: keep_last_drop sort_by_recency_props distinct_grouped)
  moreover have "inj_on fst (set (grouped lines))"
    using distinct_keys_grouped [of lines] by (simp add: distinct_map)
  then have "inj_on fst (set ?kept)" using kept_subset by (rule inj_on_subset)
  ultimately show ?thesis by (simp add: distinct_map)
qed

lemma dropped_older:
  assumes d: "d \<in> set (grouped lines) - set (keep_last maxLines (sort_by_recency (grouped lines)))"
    and k: "k \<in> set (keep_last maxLines (sort_by_recency (grouped lines)))"
  shows "lastIndex (snd d) < lastIndex (snd k)"
proof -
  let ?s = "sort_by_recency (grouped lines)"
  let ?n = "length ?s - maxLines"
  have split: "?s = take ?n ?s @ drop ?n ?s" by simp
  have kept: "keep_last maxLines ?s = drop ?n ?s" by (rule keep_last_drop)
  from d have "d \<in> set ?s" by (simp add: sort_by_recency_props)
  with d kept have dt: "d \<in> set (take ?n ?s)"
    by (metis DiffD2 Un_iff set_append split)
  from k kept have kd: "k \<in> set (drop ?n ?s)" by simp
  have "sorted (map (\<lambda>kv. lastIndex (snd kv)) (take ?n ?s) @ map (\<lambda>kv. lastIndex (snd kv)) (drop ?n ?s))"
    using sort_by_recency_props(4) [of "grouped lines"] by (metis map_append split)
  with dt kd have le: "lastIndex (snd d) \<le> lastIndex (snd k)"
    by (auto simp: sorted_append)
  have "d \<noteq> k" using d k by auto
  moreover have "k \<in> set (grouped lines)" using k kept_subset by blast
  ultimately have "lastIndex (snd d) \<noteq> lastIndex (snd k)"
    using lastIndex_inj_grouped [of d lines k] d by auto
  with le show ?thesis by simp
qed

subsection \<open>Evaluating the loop on given lines\<close>

lemma parse_line_digits:
  assumes "\<forall>c \<in> set ds. isdigit c" and "ds \<noteq> []" and "digits_fold ds 0 \<noteq> 0"
  shows "parse_line (base @ '' (repeated '' @ ds @ '' times)'') = Inr (digits_fold ds 0, base)"
  using TryParseRepeatSuffix_digits [OF assms, of base]
  by (simp add: parse_line_def substr_def repeat_prefix_def repeat_suffix_def)

lemma parse_line_short:
  "length l < 19 \<Longrightarrow> parse_line l = Inr (1, l)"
  by (simp add: parse_line_def TryParseRepeatSuffix_def repeat_prefix_def repeat_suffix_def)

lemma eval_four_lines: "group_loop [''a'', ''b'', ''a'', ''c''] 0 Map.empty [] =
    Inr [(''a'', \<lparr>baseLine = ''a'', count = 2, lastIndex = 2\<rparr>),
         (''b'', \<lparr>baseLine = ''b'', count = 1, lastIndex = 1\<rparr>),
         (''c'', \<lparr>baseLine = ''c'', count = 1, lastIndex = 3\<rparr>)]"
  by (simp add: group_loop.simps parse_line_short ExtractKey_def str_find_def)

lemma eval_four_lines_kept: "compact_records [''a'', ''b'', ''a'', ''c''] 2 =
    Inr [(''a'', \<lparr>baseLine = ''a'', count = 2, lastIndex = 2\<rparr>),
         (''c'', \<lparr>baseLine = ''c'', count = 1, lastIndex = 3\<rparr>)]"
  by (simp add: compact_records_def eval_four_lines sort_by_recency_def keep_last_def)

lemma eval_x3: "parse_line ''x (repeated 3 times)'' = Inr (3, ''x'')"
  using parse_line_digits [of "''3''" "''x''"]
  by (simp add: isdigit_def digits_fold_def digit_value_def)

lemma eval_maximal: "parse_line ''a (repeated 18446744073709551615 times)'' = Inr (18446744073709551615, ''a'')"
  using parse_line_digits [of "''18446744073709551615''" "''a''"]
  by (simp add: isdigit_def digits_fold_def digit_value_def)

lemma eval_two_maximal: "group_loop [''a (repeated 18446744073709551615 times)'', ''a (repeated 18446744073709551615 times)''] 0 Map.empty [] =
    Inr [(''a'', \<lparr>baseLine = ''a'', count = 18446744073709551614, lastIndex = 1\<rparr>)]"
  by (simp add: group_loop.simps eval_maximal ExtractKey_def str_find_def)

text \<open>
  Claim C1. For every sequence of logical lines and every \<open>maxLines\<close> the grouping loop
  builds one record per distinct key, and the records that reach the output are
  \<open>min maxLines (number of distinct keys)\<close> of them, in non-decreasing order of
  \<open>lastIndex\<close>; every record that was dropped has a smaller \<open>lastIndex\<close> than every record
  that was kept.
\<close>

theorem compaction_keeps_most_recent:
  "\<exists>recs kept. group_loop lines 0 Map.empty [] = Inr recs \<and>
     compact_records lines maxLines = Inr kept \<and>
     length recs = card (line_key ` set lines) \<and>
     length kept = min maxLines (card (line_key ` set lines)) \<and>
     sorted (map (\<lambda>kv. lastIndex (snd kv)) kept) \<and>
     set kept \<subseteq> set recs \<and>
     (\<forall>d \<in> set recs - set kept. \<forall>k \<in> set kept. lastIndex (snd d) < lastIndex (snd k))"
proof (intro exI conjI)
  show "group_loop lines 0 Map.empty [] = Inr (grouped lines)"
    by (simp add: group_loop_eq grouped_def)
  show "compact_records lines maxLines = Inr (keep_last maxLines (sort_by_recency (grouped lines)))"
    by (rule compact_records_eq)
  show "length (grouped lines) = card (line_key ` set lines)" by (rule length_grouped)
  show "length (keep_last maxLines (sort_by_recency (grouped lines))) =
      min maxLines (card (line_key ` set lines))"
    by (simp add: length_keep_last sort_by_recency_props length_grouped)
  show "sorted (map (\<lambda>kv. lastIndex (snd kv)) (keep_last maxLines (sort_by_recency (grouped lines))))"
    using sort_by_recency_props(4) [of "grouped lines"]
    by (simp add: keep_last_drop drop_map [symmetric])
  show "set (keep_last maxLines (sort_by_recency (grouped lines))) \<subseteq> set (grouped lines)"
    by (rule kept_subset)
  show "\<forall>d \<in> set (grouped lines) - set (keep_last maxLines (sort_by_recency (grouped lines))).
      \<forall>k \<in> set (keep_last maxLines (sort_by_recency (grouped lines))).
        lastIndex (snd d) < lastIndex (snd k)"
    using dropped_older by blast
qed

theorem compaction_keeps_most_recent_witness:
  "group_loop [''a'', ''b'', ''a'', ''c''] 0 Map.empty [] =
     Inr [(''a'', \<lparr>baseLine = ''a'', count = 2, lastIndex = 2\<rparr>),
          (''b'', \<lparr>baseLine = ''b'', count = 1, lastIndex = 1\<rparr>),
          (''c'', \<lparr>baseLine = ''c'', count = 1, lastIndex = 3\<rparr>)] \<and>
   compact_records [''a'', ''b'', ''a'', ''c''] 2 =
     Inr [(''a'', \<lparr>baseLine = ''a'', count = 2, lastIndex = 2\<rparr>),
          (''c'', \<lparr>baseLine = ''c'', count = 1, lastIndex = 3\<rparr>)] \<and>
   min 2 (card (line_key ` set [''a'', ''b'', ''a'', ''c''])) = 2 \<and>
   card (line_key ` set [''a'', ''b'', ''a'', ''c'']) = 3"
proof -
  from compaction_keeps_most_recent [of "[''a'', ''b'', ''a'', ''c'']" 2]
  obtain recs kept where
    "group_loop [''a'', ''b'', ''a'', ''c''] 0 Map.empty [] = Inr recs"
    "compact_records [''a'', ''b'', ''a'', ''c''] 2 = Inr kept"
    "length recs = card (line_key ` set [''a'', ''b'', ''a'', ''c''])"
    "length kept = min 2 (card (line_key ` set [''a'', ''b'', ''a'', ''c'']))"
    by blast
  then show ?thesis by (auto simp: eval_four_lines eval_four_lines_kept)
qed

text \<open>
  Claim C10. The records that reach the output loop have pairwise different keys.
\<close>

theorem one_record_per_key:
  "\<exists>kept. compact_records lines maxLines = Inr kept \<and> distinct (map fst kept)"
  using distinct_keys_kept by (simp add: compact_records_eq)

subsection \<open>Counts\<close>

lemma unat_sum_list:
  "unat (sum_list (map f xs) :: size_t) = (\<Sum>x\<leftarrow>xs. unat (f x)) mod 2 ^ 64"
proof (induction xs)
  case Nil
  show ?case by simp
next
  case (Cons x xs)
  have "unat (f x + sum_list (map f xs)) = (unat (f x) + unat (sum_list (map f xs))) mod 2 ^ 64"
    by (simp add: unat_word_ariths)
  also have "\<dots> = (unat (f x) + (\<Sum>x\<leftarrow>xs. unat (f x)) mod 2 ^ 64) mod 2 ^ 64"
    by (simp only: Cons.IH)
  also have "\<dots> = (unat (f x) + (\<Sum>x\<leftarrow>xs. unat (f x))) mod 2 ^ 64"
    by (rule mod_add_right_eq)
  finally show ?case by simp
qed

lemma sum_list_by_key:
  "distinct ks \<Longrightarrow>
   (\<Sum>k\<leftarrow>ks. \<Sum>l\<leftarrow>filter (\<lambda>l. f l = k) ls. (c l :: nat)) =
   (\<Sum>l\<leftarrow>filter (\<lambda>l. f l \<in> set ks) ls. c l)"
proof (induction ks)
  case Nil
  show ?case by simp
next
  case (Cons k ks)
  then have k: "k \<notin> set ks" and d: "distinct ks" by auto
  have "(\<Sum>l\<leftarrow>filter (\<lambda>l. f l \<in> set (k # ks)) ls. c l) =
        (\<Sum>l\<leftarrow>filter (\<lambda>l. f l = k) ls. c l) + (\<Sum>l\<leftarrow>filter (\<lambda>l. f l \<in> set ks) ls. c l)"
    using k by (induction ls) auto
  with Cons.IH [OF d] show ?case by simp
qed

text \<open>
  Claim C2, as the code has it. The counters are \<^verbatim>\<open>size_t\<close>: the count of an output
  record is the sum of the multiplicities of the lines with its key reduced modulo \<open>2^64\<close>.
  Its index and base line are those of the last line with its key. Where the sums of all
  kept keys stay below \<open>2^64\<close>, the counts of the output add up to the multiplicities of
  the input lines whose keys were kept.
\<close>

theorem counts_are_sums_modulo:
  "\<exists>kept. compact_records lines maxLines = Inr kept \<and>
     (\<forall>(k, r) \<in> set kept.
        unat (count r) = (\<Sum>l\<leftarrow>filter (\<lambda>l. line_key l = k) lines. unat (line_count l)) mod 2 ^ 64 \<and>
        lastIndex r < length lines \<and> line_key (lines ! lastIndex r) = k \<and>
        (\<forall>j. lastIndex r < j \<and> j < length lines \<longrightarrow> line_key (lines ! j) \<noteq> k) \<and>
        baseLine r = line_base (lines ! lastIndex r)) \<and>
     ((\<forall>k \<in> fst ` set kept.
         (\<Sum>l\<leftarrow>filter (\<lambda>l. line_key l = k) lines. unat (line_count l)) < 2 ^ 64) \<longrightarrow>
      (\<Sum>kv\<leftarrow>kept. unat (count (snd kv))) =
      (\<Sum>l\<leftarrow>filter (\<lambda>l. line_key l \<in> fst ` set kept) lines. unat (line_count l)))"
proof -
  let ?kept = "keep_last maxLines (sort_by_recency (grouped lines))"
  let ?S = "\<lambda>k. \<Sum>l\<leftarrow>filter (\<lambda>l. line_key l = k) lines. unat (line_count l)"
  have rec: "unat (count r) = ?S k mod 2 ^ 64 \<and>
        lastIndex r < length lines \<and> line_key (lines ! lastIndex r) = k \<and>
        (\<forall>j. lastIndex r < j \<and> j < length lines \<longrightarrow> line_key (lines ! j) \<noteq> k) \<and>
        baseLine r = line_base (lines ! lastIndex r)"
    if "(k, r) \<in> set ?kept" for k r
  proof -
    from that kept_subset have g: "(k, r) \<in> set (grouped lines)" by blast
    have "unat (count r) = ?S k mod 2 ^ 64"
      unfolding grouped_record(5) [OF g] by (rule unat_sum_list)
    with grouped_record(1-4) [OF g] show ?thesis by blast
  qed
  have total: "(\<Sum>kv\<leftarrow>?kept. unat (count (snd kv))) =
      (\<Sum>l\<leftarrow>filter (\<lambda>l. line_key l \<in> fst ` set ?kept) lines. unat (line_count l))"
    if small: "\<forall>k \<in> fst ` set ?kept. ?S k < 2 ^ 64"
  proof -
    have "unat (count (snd kv)) = ?S (fst kv)" if "kv \<in> set ?kept" for kv
    proof -
      from that have "(fst kv, snd kv) \<in> set ?kept" by simp
      from rec [OF this] have "unat (count (snd kv)) = ?S (fst kv) mod 2 ^ 64" by blast
      moreover from small that have "?S (fst kv) < 2 ^ 64" by blast
      ultimately show ?thesis by simp
    qed
    then have "(\<Sum>kv\<leftarrow>?kept. unat (count (snd kv))) = (\<Sum>kv\<leftarrow>?kept. ?S (fst kv))"
      by (intro arg_cong [where f = sum_list] map_cong) auto
    also have "\<dots> = (\<Sum>k\<leftarrow>map fst ?kept. ?S k)" by (simp add: comp_def)
    also have "\<dots> = (\<Sum>l\<leftarrow>filter (\<lambda>l. line_key l \<in> set (map fst ?kept)) lines. unat (line_count l))"
      using distinct_keys_kept by (rule sum_list_by_key)
    finally show ?thesis by simp
  qed
  show ?thesis
    using rec total by (intro exI [of _ ?kept]) (auto simp: compact_records_eq)
qed

theorem counts_are_sums_modulo_witness:
  "compact_records [''x (repeated 3 times)'', ''y'', ''x''] 1 =
     Inr [(''x'', \<lparr>baseLine = ''x'', count = 4, lastIndex = 2\<rparr>)] \<and>
   (\<Sum>l\<leftarrow>filter (\<lambda>l. line_key l = ''x'') [''x (repeated 3 times)'', ''y'', ''x'']. unat (line_count l)) = 4 \<and>
   (\<Sum>l\<leftarrow>filter (\<lambda>l. line_key l \<in> {''x''}) [''x (repeated 3 times)'', ''y'', ''x'']. unat (line_count l)) = 4 \<and>
   line_key ([''x (repeated 3 times)'', ''y'', ''x''] ! 2) = ''x'' \<and>
   line_base ([''x (repeated 3 times)'', ''y'', ''x''] ! 2) = ''x''"
proof -
  let ?L = "[''x (repeated 3 times)'', ''y'', ''x'']"
  let ?K = "[(''x'', \<lparr>baseLine = ''x'', count = 4, lastIndex = 2\<rparr>)]"
  have kept: "compact_records ?L 1 = Inr ?K"
    by (simp add: compact_records_def group_loop.simps eval_x3 parse_line_short
        ExtractKey_def str_find_def sort_by_recency_def keep_last_def)
  from counts_are_sums_modulo [of ?L 1] kept
  have rec: "\<forall>(k, r) \<in> set ?K.
        unat (count r) = (\<Sum>l\<leftarrow>filter (\<lambda>l. line_key l = k) ?L. unat (line_count l)) mod 2 ^ 64 \<and>
        lastIndex r < length ?L \<and> line_key (?L ! lastIndex r) = k \<and>
        (\<forall>j. lastIndex r < j \<and> j < length ?L \<longrightarrow> line_key (?L ! j) \<noteq> k) \<and>
        baseLine r = line_base (?L ! lastIndex r)"
    and total: "(\<forall>k \<in> fst ` set ?K.
         (\<Sum>l\<leftarrow>filter (\<lambda>l. line_key l = k) ?L. unat (line_count l)) < 2 ^ 64) \<longrightarrow>
      (\<Sum>kv\<leftarrow>?K. unat (count (snd kv))) =
      (\<Sum>l\<leftarrow>filter (\<lambda>l. line_key l \<in> fst ` set ?K) ?L. unat (line_count l))"
    by auto
  have keys: "line_key ''x (repeated 3 times)'' = ''x''" "line_key ''y'' = ''y''"
    "line_key ''x'' = ''x''"
    by (simp_all add: line_key_def line_base_def eval_x3 parse_line_short ExtractKey_def
        str_find_def)
  have counts: "line_count ''x (repeated 3 times)'' = 3" "line_count ''x'' = 1"
    by (simp_all add: line_count_def eval_x3 parse_line_short)
  have s: "(\<Sum>l\<leftarrow>filter (\<lambda>l. line_key l = ''x'') ?L. unat (line_count l)) = 4"
    by (simp add: keys counts)
  with total have "(\<Sum>kv\<leftarrow>?K. unat (count (snd kv))) =
      (\<Sum>l\<leftarrow>filter (\<lambda>l. line_key l \<in> fst ` set ?K) ?L. unat (line_count l))"
    by simp
  then have t: "(\<Sum>l\<leftarrow>filter (\<lambda>l. line_key l \<in> {''x''}) ?L. unat (line_count l)) = 4"
    by simp
  from rec have "line_key (?L ! 2) = ''x''" "''x'' = line_base (?L ! 2)" by simp_all
  with kept s t show ?thesis by simp
qed

text \<open>
  The claim read over the integers fails where the counters wrap: two lines that each
  stand for \<open>2^64 - 1\<close> occurrences of one key give a record whose count is \<open>2^64 - 2\<close>, not
  the sum \<open>2^65 - 2\<close> of the two multiplicities.
\<close>

theorem counts_wrap_counterexample:
  "parse_line ''a (repeated 18446744073709551615 times)'' = Inr (18446744073709551615, ''a'') \<and>
   ExtractKey ''a'' = Inr ''a'' \<and>
   compact_records
     [''a (repeated 18446744073709551615 times)'', ''a (repeated 18446744073709551615 times)'']
     1000 =
     Inr [(''a'', \<lparr>baseLine = ''a'', count = 18446744073709551614, lastIndex = 1\<rparr>)] \<and>
   unat (18446744073709551614 :: size_t) \<noteq>
     unat (18446744073709551615 :: size_t) + unat (18446744073709551615 :: size_t)"
  by (simp add: compact_records_def eval_two_maximal eval_maximal ExtractKey_def str_find_def
      sort_by_recency_def keep_last_def)

subsection \<open>Reading the file\<close>

lemma getline_Some:
  "getline bs = Some (line, rest) \<Longrightarrow>
     CHR 0x0A \<notin> set line \<and> length rest < length bs \<and> set line \<subseteq> set bs"
proof (induction bs arbitrary: line rest)
  case Nil
  then show ?case by simp
next
  case (Cons c cs)
  show ?case
  proof (cases "c = CHR 0x0A")
    case True
    with Cons.prems show ?thesis by auto
  next
    case False
    show ?thesis
    proof (cases "getline cs")
      case None
      with False Cons.prems show ?thesis by auto
    next
      case (Some p)
      obtain l r where p: "p = (l, r)" by (cases p)
      from Cons.IH [of l r] Some p
      have "CHR 0x0A \<notin> set l \<and> length r < length cs \<and> set l \<subseteq> set cs" by simp
      with False Cons.prems Some p show ?thesis by auto
    qed
  qed
qed

lemma getline_line:
  "CHR 0x0A \<notin> set l \<Longrightarrow> getline (l @ CHR 0x0A # rest) = Some (l, rest)"
  by (induction l) auto

lemma read_lines_good:
  "\<exists>ls. read_lines bs acc = Inr (acc @ ls) \<and> (\<forall>l \<in> set ls. good_line l)"
proof (induction bs arbitrary: acc rule: length_induct)
  case (1 bs)
  show ?case
  proof (cases "getline bs")
    case None
    then have "read_lines bs acc = Inr (acc @ [])" by (subst read_lines.simps) simp
    then show ?thesis by fastforce
  next
    case (Some p)
    obtain line rest where p: "p = (line, rest)" by (cases p)
    from getline_Some [of bs line rest] Some p
    have nl: "CHR 0x0A \<notin> set line" and shorter: "length rest < length bs" by auto
    show ?thesis
    proof (cases "line = []")
      case True
      from 1 shorter obtain ls where
        "read_lines rest acc = Inr (acc @ ls)" "\<forall>l \<in> set ls. good_line l"
        by blast
      with Some p True show ?thesis by (subst read_lines.simps) auto
    next
      case False
      from SplitConcatenatedLines_segments [of line "[]"]
      obtain segs where segs: "SplitConcatenatedLines line [] = Inr segs" "concat segs = line"
        "[] \<notin> set segs" "\<forall>seg \<in> set segs. unsplittable seg"
        by auto
      have keep: "filter (\<lambda>p. p \<noteq> []) segs = segs" using segs(3) by (auto simp: filter_id_conv)
      have good: "\<forall>seg \<in> set segs. good_line seg"
      proof
        fix seg assume seg: "seg \<in> set segs"
        then have "set seg \<subseteq> set (concat segs)" by auto
        with nl segs(2) have "CHR 0x0A \<notin> set seg" by auto
        with seg segs(3,4) show "good_line seg" by (auto simp: good_line_def)
      qed
      from 1 shorter obtain ls where
        ls: "read_lines rest (acc @ segs) = Inr ((acc @ segs) @ ls)" "\<forall>l \<in> set ls. good_line l"
        by blast
      have "read_lines bs acc = Inr (acc @ (segs @ ls))"
        using Some p False segs(1) keep ls(1) by (subst read_lines.simps) simp
      moreover have "\<forall>l \<in> set (segs @ ls). good_line l" using good ls(2) by auto
      ultimately show ?thesis by blast
    qed
  qed
qed

lemma read_lines_written:
  "\<forall>l \<in> set ls. good_line l \<Longrightarrow>
   read_lines (concat (map (\<lambda>l. l @ [CHR 0x0A]) ls)) acc = Inr (acc @ ls)"
proof (induction ls arbitrary: acc)
  case Nil
  show ?case by (subst read_lines.simps) simp
next
  case (Cons l ls)
  then have g: "l \<noteq> []" "CHR 0x0A \<notin> set l" "unsplittable l" by (auto simp: good_line_def)
  let ?rest = "concat (map (\<lambda>l. l @ [CHR 0x0A]) ls)"
  have eq: "concat (map (\<lambda>l. l @ [CHR 0x0A]) (l # ls)) = l @ CHR 0x0A # ?rest" by simp
  note gl = getline_line [OF g(2), of ?rest]
  from Cons have "read_lines ?rest (acc @ [l]) = Inr ((acc @ [l]) @ ls)" by simp
  then show ?case
    unfolding eq
    using g(1) SplitConcatenatedLines_unsplittable [OF g(1,3), of "[]"]
    by (subst read_lines.simps) (simp add: gl)
qed

lemma read_lines_only_newlines:
  "set bs \<subseteq> {CHR 0x0A} \<Longrightarrow> read_lines bs acc = Inr acc"
proof (induction bs)
  case Nil
  show ?case by (subst read_lines.simps) simp
next
  case (Cons c cs)
  then have "c = CHR 0x0A" "read_lines cs acc = Inr acc" by auto
  then show ?case by (subst read_lines.simps) simp
qed

lemma getline_empty_line:
  "getline bs = Some ([], rest) \<Longrightarrow> bs = CHR 0x0A # rest"
  by (cases bs) (auto split: if_splits option.splits)

lemma read_lines_nothing:
  "read_lines bs acc = Inr acc \<Longrightarrow> set bs \<subseteq> {CHR 0x0A}"
proof (induction bs rule: length_induct)
  case (1 bs)
  show ?case
  proof (cases "getline bs")
    case None
    then have "bs = []" by (cases bs) (auto split: if_splits option.splits)
    then show ?thesis by simp
  next
    case (Some p)
    obtain line rest where p: "p = (line, rest)" by (cases p)
    from getline_Some [of bs line rest] Some p have shorter: "length rest < length bs" by simp
    show ?thesis
    proof (cases "line = []")
      case True
      with Some p have bs: "bs = CHR 0x0A # rest" by (simp add: getline_empty_line)
      from 1(2) Some p True have "read_lines rest acc = Inr acc"
        by (subst (asm) read_lines.simps) simp
      with 1(1) shorter have "set rest \<subseteq> {CHR 0x0A}" by blast
      with bs show ?thesis by simp
    next
      case False
      from SplitConcatenatedLines_segments [of line "[]"] False
      obtain segs where segs: "SplitConcatenatedLines line [] = Inr segs" "[] \<notin> set segs"
        "segs \<noteq> []"
        by auto
      then have keep: "filter (\<lambda>p. p \<noteq> []) segs = segs" by (auto simp: filter_id_conv)
      from read_lines_good [of rest "acc @ segs"]
      obtain ls where "read_lines rest (acc @ segs) = Inr ((acc @ segs) @ ls)" by blast
      with Some p False segs(1) keep have "read_lines bs acc = Inr (acc @ segs @ ls)"
        by (subst read_lines.simps) simp
      with 1(2) segs(3) show ?thesis by simp
    qed
  qed
qed

lemma read_lines_Nil_iff: "read_lines bs [] = Inr [] \<longleftrightarrow> set bs \<subseteq> {CHR 0x0A}"
  using read_lines_nothing [of bs "[]"] read_lines_only_newlines [of bs "[]"] by blast

text \<open>
  Claim C8. When the file cannot be opened for reading, or holds nothing but newlines
  (by \<open>read_lines_Nil_iff\<close> these are the files in which the reading loop finds no logical
  line), the function returns without opening the file for writing: the outcome is
  \<open>Untouched\<close>, which is not \<open>Rewritten []\<close>, and the file is as it was.
\<close>

theorem compaction_untouched:
  "\<not> opens_for_reading f \<or> set (bytes f) \<subseteq> {CHR 0x0A} \<Longrightarrow>
   CompressAndTrimLogFile f maxLines = Inr Untouched \<and> compaction_pass f maxLines = Inr f"
  by (auto simp: CompressAndTrimLogFile_def compaction_pass_def file_after_def
      read_lines_only_newlines)

theorem compaction_untouched_witness:
  "CompressAndTrimLogFile
     \<lparr>opens_for_reading = True, opens_for_writing = True, bytes = [CHR 0x0A, CHR 0x0A]\<rparr> 1000 =
     Inr Untouched \<and>
   CompressAndTrimLogFile
     \<lparr>opens_for_reading = False, opens_for_writing = True, bytes = ''a''\<rparr> 1000 = Inr Untouched"
  using
    compaction_untouched [of "\<lparr>opens_for_reading = True, opens_for_writing = True,
      bytes = [CHR 0x0A, CHR 0x0A]\<rparr>" 1000]
    compaction_untouched [of "\<lparr>opens_for_reading = False, opens_for_writing = True,
      bytes = ''a''\<rparr>" 1000]
  by simp

subsection \<open>A second pass over the output\<close>

lemma line_base_take: "\<exists>p. line_base l = take p l"
proof (cases "TryParseRepeatSuffix l")
  case None
  then have "line_base l = take (length l) l"
    by (simp add: line_base_def parse_line_def)
  then show ?thesis by blast
next
  case (Some cp)
  then have "line_base l = take (snd cp) l"
    by (cases cp) (simp add: line_base_def parse_line_def substr_def)
  then show ?thesis by blast
qed

lemma good_line_base:
  assumes "good_line l"
  shows "CHR 0x0A \<notin> set (line_base l)" and "unsplittable (line_base l)"
proof -
  from line_base_take obtain p where p: "line_base l = take p l" by blast
  from assms have "CHR 0x0A \<notin> set l" "unsplittable l" by (auto simp: good_line_def)
  then show "CHR 0x0A \<notin> set (line_base l)" and "unsplittable (line_base l)"
    using set_take_subset [of p l] by (auto simp: p unsplittable_take)
qed

lemma isdigit_not_bracket_newline: "isdigit c \<Longrightarrow> c \<noteq> CHR ''['' \<and> c \<noteq> CHR 0x0A"
  by (auto simp: isdigit_def)

lemma repeat_text_chars:
  assumes "c \<in> set (repeat_prefix @ decimal n @ repeat_suffix)"
  shows "c \<noteq> CHR ''[''" and "c \<noteq> CHR 0x0A"
  using assms decimal_digits [of n] isdigit_not_bracket_newline
  by (auto simp: repeat_prefix_def repeat_suffix_def)

lemma unsplittable_append:
  assumes base: "unsplittable b"
    and tail: "\<not> (6 < length b \<and> IsTimestampStart (b @ '' '') (length b - 6))"
    and t: "t = CHR '' '' # t'" "CHR ''['' \<notin> set t"
  shows "unsplittable (b @ t)"
  unfolding unsplittable_def
proof (intro allI impI notI)
  fix i assume i: "0 < i" and its: "IsTimestampStart (b @ t) i"
  from its have len: "i + 6 < length b + length t"
    and c0: "(b @ t) ! i = CHR ''[''"
    and c1: "isdigit ((b @ t) ! (i + 1))" and c2: "isdigit ((b @ t) ! (i + 2))"
    and c3: "isdigit ((b @ t) ! (i + 3))" and c4: "isdigit ((b @ t) ! (i + 4))"
    and c5: "(b @ t) ! (i + 5) = CHR ''-''"
    by (simp_all add: IsTimestampStart_iff)
  consider "i + 6 < length b" | "i + 6 = length b" | "i < length b" "length b < i + 6"
    | "length b \<le> i"
    by arith
  then show False
  proof cases
    case 1
    with c0 c1 c2 c3 c4 c5 have "IsTimestampStart b i"
      by (simp add: IsTimestampStart_iff nth_append)
    with base i show False by (simp add: unsplittable_def)
  next
    case 2
    with c0 c1 c2 c3 c4 c5 have "IsTimestampStart (b @ '' '') i"
      by (simp add: IsTimestampStart_iff nth_append)
    moreover from 2 i have "6 < length b" "i = length b - 6" by arith+
    ultimately show False using tail by simp
  next
    case 3
    then have "length b - i = 1 \<or> length b - i = 2 \<or> length b - i = 3 \<or> length b - i = 4 \<or>
        length b - i = 5"
      by arith
    moreover have sp: "(b @ t) ! (i + (length b - i)) = CHR '' ''"
      using 3 t(1) by (simp add: nth_append)
    moreover have "\<not> isdigit (CHR '' '')" by (simp add: isdigit_def)
    ultimately show False using c1 c2 c3 c4 c5 by (elim disjE) simp_all
  next
    case 4
    with len have "i - length b < length t" by arith
    then have "t ! (i - length b) \<in> set t" by (rule nth_mem)
    moreover from 4 c0 have "t ! (i - length b) = CHR ''[''" by (simp add: nth_append)
    ultimately show False using t(2) by simp
  qed
qed

lemma SerializeRecord_good:
  assumes b: "b \<noteq> []" "CHR 0x0A \<notin> set b" "unsplittable b"
    and tail: "\<not> (6 < length b \<and> IsTimestampStart (b @ '' '') (length b - 6))"
  shows "good_line (SerializeRecord b n)"
proof (cases "1 < n")
  case False
  with b show ?thesis by (simp add: SerializeRecord_def good_line_def)
next
  case True
  let ?t = "repeat_prefix @ decimal (unat n) @ repeat_suffix"
  have t1: "?t = CHR '' '' # (''(repeated '' @ decimal (unat n) @ repeat_suffix)"
    by (simp add: repeat_prefix_def)
  have t2: "CHR ''['' \<notin> set ?t" using repeat_text_chars(1) [of "CHR ''[''" "unat n"] by blast
  have t3: "CHR 0x0A \<notin> set ?t" using repeat_text_chars(2) [of "CHR 0x0A" "unat n"] by blast
  have "unsplittable (b @ ?t)" using b(3) tail t1 t2 by (rule unsplittable_append)
  with b(1,2) t3 True show ?thesis
    by (simp add: SerializeRecord_repeated good_line_def)
qed

lemma parse_line_SerializeRecord:
  assumes "TryParseRepeatSuffix b = None"
  shows "parse_line (SerializeRecord b n) = Inr (if 1 < n then n else 1, b)"
proof (cases "1 < n")
  case True
  with TryParseRepeatSuffix_SerializeRecord [OF True, of b] show ?thesis
    by (simp add: parse_line_def substr_def SerializeRecord_repeated)
next
  case False
  with assms show ?thesis by (simp add: parse_line_def SerializeRecord_def)
qed

lemma write_records_lines:
  "write_records records = concat (map (\<lambda>l. l @ [CHR 0x0A]) (map record_line records))"
  by (simp add: write_records_def record_line_def comp_def)

lemma first_keys_distinct: "distinct (map line_key ls) \<Longrightarrow> first_keys ls = map line_key ls"
  by (simp add: first_keys_def distinct_remdups_id)

lemma filter_upt_single: "j < n \<Longrightarrow> filter (\<lambda>i. i = j) [0..<n] = [j]"
proof (induction n)
  case 0
  then show ?case by simp
next
  case (Suc n)
  show ?case
  proof (cases "j = n")
    case True
    have "filter (\<lambda>i. i = n) [0..<n] = []" by (simp add: filter_empty_conv)
    with True show ?thesis by simp
  next
    case False
    with Suc show ?thesis by simp
  qed
qed

lemma occurrences_distinct:
  assumes d: "distinct (map line_key ls)" and j: "j < length ls"
  shows "occurrences ls (length ls) (line_key (ls ! j)) = [j]"
proof -
  have "(line_key (ls ! i) = line_key (ls ! j)) = (i = j)" if "i < length ls" for i
    using nth_eq_iff_index_eq [OF d, of i j] that j by simp
  then have "filter (\<lambda>i. line_key (ls ! i) = line_key (ls ! j)) [0..<length ls] =
      filter (\<lambda>i. i = j) [0..<length ls]"
    by (intro filter_cong) auto
  with j show ?thesis by (simp add: occurrences_def filter_upt_single)
qed

lemma grouped_distinct:
  assumes d: "distinct (map line_key ls)"
  shows "grouped ls =
     map (\<lambda>j. (line_key (ls ! j),
            \<lparr>baseLine = line_base (ls ! j), count = line_count (ls ! j), lastIndex = j\<rparr>))
       [0..<length ls]"
proof (rule nth_equalityI)
  show "length (grouped ls) = length (map (\<lambda>j. (line_key (ls ! j),
            \<lparr>baseLine = line_base (ls ! j), count = line_count (ls ! j), lastIndex = j\<rparr>))
       [0..<length ls])"
    by (simp add: grouped_def grouped_upto_def first_keys_distinct [OF d])
next
  fix j assume "j < length (grouped ls)"
  then have j: "j < length ls"
    by (simp add: grouped_def grouped_upto_def first_keys_distinct [OF d])
  then show "grouped ls ! j = map (\<lambda>j. (line_key (ls ! j),
            \<lparr>baseLine = line_base (ls ! j), count = line_count (ls ! j), lastIndex = j\<rparr>))
       [0..<length ls] ! j"
    by (simp add: grouped_def grouped_upto_def first_keys_distinct [OF d] record_upto_def
        occurrences_distinct [OF d j])
qed

lemma sort_by_recency_reread: "sort_by_recency (reread kept) = reread kept"
proof -
  have "map (\<lambda>kv. lastIndex (snd kv)) (reread kept) = [0..<length kept]"
    by (simp add: reread_def comp_def)
  then have "sorted (map (\<lambda>kv. lastIndex (snd kv)) (reread kept))" by simp
  then show ?thesis unfolding sort_by_recency_def by (rule sort_key_id_if_sorted)
qed

lemma SerializeRecord_at_least_one:
  "SerializeRecord b (if 1 < n then n else 1) = SerializeRecord b n"
  by (simp add: SerializeRecord_def)

lemma write_records_reread: "write_records (reread kept) = write_records kept"
proof -
  have "map record_line (reread kept) = map record_line kept"
    by (rule nth_equalityI)
      (simp_all add: reread_def record_line_def SerializeRecord_at_least_one)
  then show ?thesis by (simp only: write_records_lines)
qed

lemma kept_record_line:
  assumes lines: "\<forall>l \<in> set lines. good_line l \<and> stable_line l"
    and kv: "kv \<in> set (keep_last maxLines (sort_by_recency (grouped lines)))"
  shows "good_line (record_line kv)"
    and "line_key (record_line kv) = fst kv"
    and "line_base (record_line kv) = baseLine (snd kv)"
    and "line_count (record_line kv) = (if 1 < count (snd kv) then count (snd kv) else 1)"
proof -
  obtain k r where kr: "kv = (k, r)" by (cases kv)
  with kv kept_subset have g: "(k, r) \<in> set (grouped lines)" by blast
  let ?l = "lines ! lastIndex r"
  from grouped_record(1) [OF g] have "?l \<in> set lines" by simp
  with lines have good: "good_line ?l" and stable: "stable_line ?l" by auto
  have b: "baseLine r = line_base ?l" by (rule grouped_record(4) [OF g])
  have k: "line_key ?l = k" by (rule grouped_record(2) [OF g])
  from stable b have ne: "baseLine r \<noteq> []" and np: "TryParseRepeatSuffix (baseLine r) = None"
    and tail: "\<not> (6 < length (baseLine r) \<and>
        IsTimestampStart (baseLine r @ '' '') (length (baseLine r) - 6))"
    by (simp_all add: stable_line_def)
  from good_line_base [OF good] b
  have nl: "CHR 0x0A \<notin> set (baseLine r)" and us: "unsplittable (baseLine r)" by simp_all
  show "good_line (record_line kv)"
    unfolding record_line_def kr using ne nl us tail by (simp add: SerializeRecord_good)
  have p: "parse_line (record_line kv) = Inr (if 1 < count r then count r else 1, baseLine r)"
    unfolding record_line_def kr using np by (simp add: parse_line_SerializeRecord)
  then show lb: "line_base (record_line kv) = baseLine (snd kv)"
    by (simp add: line_base_def kr)
  from p show "line_count (record_line kv) = (if 1 < count (snd kv) then count (snd kv) else 1)"
    by (simp add: line_count_def kr)
  have "ExtractKey (baseLine r) = Inr k" using ExtractKey_total [of ?l] b k by simp
  with lb show "line_key (record_line kv) = fst kv" by (simp add: line_key_def kr)
qed

lemma second_pass:
  assumes lines: "\<forall>l \<in> set lines. good_line l \<and> stable_line l"
    and kept: "kept = keep_last maxLines (sort_by_recency (grouped lines))"
  shows "read_lines (write_records kept) [] = Inr (map record_line kept)"
    and "compact_records (map record_line kept) maxLines = Inr (reread kept)"
proof -
  note rl = kept_record_line [OF lines]
  have "\<forall>l \<in> set (map record_line kept). good_line l" using rl(1) kept by auto
  from read_lines_written [OF this, of "[]"]
  show "read_lines (write_records kept) [] = Inr (map record_line kept)"
    by (simp only: write_records_lines append_Nil)
  have keys: "map line_key (map record_line kept) = map fst kept"
    using rl(2) kept by simp
  have "distinct (map fst kept)" unfolding kept by (rule distinct_keys_kept)
  then have d: "distinct (map line_key (map record_line kept))" by (simp only: keys)
  have at: "line_key (record_line (kept ! j)) = fst (kept ! j) \<and>
      line_base (record_line (kept ! j)) = baseLine (snd (kept ! j)) \<and>
      line_count (record_line (kept ! j)) =
        (if 1 < count (snd (kept ! j)) then count (snd (kept ! j)) else 1)"
    if "j < length kept" for j
  proof -
    from that have "kept ! j \<in> set (keep_last maxLines (sort_by_recency (grouped lines)))"
      unfolding kept [symmetric] by (rule nth_mem)
    from rl(2) [OF this] rl(3) [OF this] rl(4) [OF this] show ?thesis by blast
  qed
  have "grouped (map record_line kept) = reread kept"
    unfolding grouped_distinct [OF d] reread_def
    by (rule nth_equalityI) (simp_all add: at)
  moreover have "length (reread kept) \<le> maxLines"
    by (simp add: reread_def kept length_keep_last)
  ultimately show "compact_records (map record_line kept) maxLines = Inr (reread kept)"
    by (simp add: compact_records_eq sort_by_recency_reread keep_last_def)
qed

text \<open>
  Claim C5, as the code has it. When every logical line of the file is stable, a second
  call with the same \<open>maxLines\<close> on the file the first call left leaves the same file:
  byte for byte the same content.
\<close>

theorem compaction_idempotent:
  assumes "read_lines (bytes f) [] = Inr lines" and "\<forall>l \<in> set lines. stable_line l"
  shows "\<exists>f1. compaction_pass f maxLines = Inr f1 \<and> compaction_pass f1 maxLines = Inr f1"
proof -
  let ?kept = "keep_last maxLines (sort_by_recency (grouped lines))"
  let ?f1 = "f\<lparr>bytes := write_records ?kept\<rparr>"
  consider "\<not> opens_for_reading f \<or> lines = [] \<or> \<not> opens_for_writing f"
    | "opens_for_reading f" "lines \<noteq> []" "opens_for_writing f"
    by blast
  then show ?thesis
  proof cases
    case 1
    with assms(1) have "compaction_pass f maxLines = Inr f"
      by (auto simp: compaction_pass_def CompressAndTrimLogFile_def file_after_def
          compact_records_eq)
    then show ?thesis by blast
  next
    case 2
    from read_lines_good [of "bytes f" "[]"] assms(1)
    have "\<forall>l \<in> set lines. good_line l" by simp
    with assms(2) have lines: "\<forall>l \<in> set lines. good_line l \<and> stable_line l" by blast
    note sp = second_pass [OF lines refl, of maxLines]
    from 2 assms(1) have first: "compaction_pass f maxLines = Inr ?f1"
      by (simp add: compaction_pass_def CompressAndTrimLogFile_def file_after_def
          compact_records_eq)
    have "compaction_pass ?f1 maxLines = Inr ?f1"
      using 2 sp
      by (simp add: compaction_pass_def CompressAndTrimLogFile_def file_after_def
          write_records_reread)
    with first show ?thesis by blast
  qed
qed

subsection \<open>Evaluating a pass on given files\<close>

lemma rfind_down_Some:
  "rfind_down s pat n = Some p \<Longrightarrow> p \<le> n \<and> prefix pat (drop p s)"
  by (induction n) (auto split: if_splits)

lemma TryParseRepeatSuffix_Some_last:
  assumes "TryParseRepeatSuffix s = Some x"
  shows "s \<noteq> [] \<and> last s = CHR '')''"
proof -
  from assms obtain endp where e: "str_rfind s repeat_suffix = Some endp"
    "endp + length repeat_suffix = length s"
    by (auto simp: TryParseRepeatSuffix_def Let_def split: if_splits option.splits)
  then have "prefix repeat_suffix (drop endp s)"
    using rfind_down_Some [of s repeat_suffix] by (auto simp: str_rfind_def split: if_splits)
  moreover from e(2) have "length (drop endp s) = length repeat_suffix" by simp
  ultimately have d: "drop endp s = repeat_suffix"
  proof -
    assume pre: "prefix repeat_suffix (drop endp s)"
      and len: "length (drop endp s) = length repeat_suffix"
    from pre obtain zs where zs: "drop endp s = repeat_suffix @ zs" by (auto simp: prefix_def)
    then have "length (drop endp s) = length repeat_suffix + length zs" by simp
    with len have "zs = []" by simp
    with zs show ?thesis by simp
  qed
  have "s = take endp s @ drop endp s" by simp
  then have "s = take endp s @ repeat_suffix" by (simp only: d)
  then have "last s = last (take endp s @ repeat_suffix)" "s \<noteq> []"
    by (simp, auto simp: repeat_suffix_def)
  then show ?thesis by (simp add: repeat_suffix_def)
qed

lemma parse_line_plain: "s \<noteq> [] \<Longrightarrow> last s \<noteq> CHR '')'' \<Longrightarrow> parse_line s = Inr (1, s)"
  using TryParseRepeatSuffix_Some_last [of s]
  by (cases "TryParseRepeatSuffix s") (auto simp: parse_line_def)

lemma no_bracket_unsplittable: "CHR ''['' \<notin> set (tl l) \<Longrightarrow> unsplittable l"
  unfolding unsplittable_def
proof (intro allI impI notI)
  fix i assume b: "CHR ''['' \<notin> set (tl l)" and i: "0 < i" and its: "IsTimestampStart l i"
  from its have "i < length l" "l ! i = CHR ''[''" by (simp_all add: IsTimestampStart_iff)
  with i have "tl l ! (i - 1) = CHR ''[''" "i - 1 < length (tl l)"
    by (simp_all add: nth_tl)
  with b show False by (metis nth_mem)
qed

lemma eval_x2: "parse_line ''X (repeated 2 times)'' = Inr (2, ''X'')"
  using parse_line_digits [of "''2''" "''X''"]
  by (simp add: isdigit_def digits_fold_def digit_value_def)

lemma eval_x2_x1:
  "parse_line ''X (repeated 2 times) (repeated 1 times)'' = Inr (1, ''X (repeated 2 times)'')"
  using parse_line_digits [of "''1''" "''X (repeated 2 times)''"]
  by (simp add: isdigit_def digits_fold_def digit_value_def)

lemma eval_read_nested:
  "read_lines (''X (repeated 2 times) (repeated 1 times)'' @ [CHR 0x0A] @ ''X'' @ [CHR 0x0A]) [] =
     Inr [''X (repeated 2 times) (repeated 1 times)'', ''X'']"
  using read_lines_written [of "[''X (repeated 2 times) (repeated 1 times)'', ''X'']" "[]"]
  by (simp add: good_line_def no_bracket_unsplittable)

lemma eval_read_nested_again:
  "read_lines (''X (repeated 2 times)'' @ [CHR 0x0A] @ ''X'' @ [CHR 0x0A]) [] =
     Inr [''X (repeated 2 times)'', ''X'']"
  using read_lines_written [of "[''X (repeated 2 times)'', ''X'']" "[]"]
  by (simp add: good_line_def no_bracket_unsplittable)

lemma TryParseRepeatSuffix_plain:
  "s \<noteq> [] \<Longrightarrow> last s \<noteq> CHR '')'' \<Longrightarrow> TryParseRepeatSuffix s = None"
  using TryParseRepeatSuffix_Some_last [of s] by (cases "TryParseRepeatSuffix s") auto

lemma eval_read_started:
  "read_lines (''[2024-01-01 00:00:00] [INFO] Started'' @ [CHR 0x0A] @
      ''[2024-01-01 00:00:00] [INFO] Started'' @ [CHR 0x0A]) [] =
     Inr [''[2024-01-01 00:00:00] [INFO] Started'', ''[2024-01-01 00:00:00] [INFO] Started'']"
  by (simp add: read_lines.simps SplitConcatenatedLines_def split_loop.simps
      IsTimestampStart_def substr_from_def)

lemma eval_started:
  "compact_records
     [''[2024-01-01 00:00:00] [INFO] Started'', ''[2024-01-01 00:00:00] [INFO] Started''] 1000 =
   Inr [(''[INFO] Started'',
         \<lparr>baseLine = ''[2024-01-01 00:00:00] [INFO] Started'', count = 2, lastIndex = 1\<rparr>)]"
  by (simp add: compact_records_def group_loop.simps parse_line_plain ExtractKey_def
      str_find_def substr_from_def sort_by_recency_def keep_last_def)

lemma stable_started: "stable_line ''[2024-01-01 00:00:00] [INFO] Started''"
  by (simp add: stable_line_def line_base_def parse_line_plain TryParseRepeatSuffix_plain
      IsTimestampStart_def)

theorem compaction_idempotent_witness:
  "stable_line ''[2024-01-01 00:00:00] [INFO] Started'' \<and>
   read_lines (''[2024-01-01 00:00:00] [INFO] Started'' @ [CHR 0x0A] @
      ''[2024-01-01 00:00:00] [INFO] Started'' @ [CHR 0x0A]) [] =
     Inr [''[2024-01-01 00:00:00] [INFO] Started'', ''[2024-01-01 00:00:00] [INFO] Started''] \<and>
   compaction_pass
     \<lparr>opens_for_reading = True, opens_for_writing = True,
      bytes = ''[2024-01-01 00:00:00] [INFO] Started'' @ [CHR 0x0A] @
        ''[2024-01-01 00:00:00] [INFO] Started'' @ [CHR 0x0A]\<rparr> 1000 =
   Inr \<lparr>opens_for_reading = True, opens_for_writing = True,
      bytes = ''[2024-01-01 00:00:00] [INFO] Started (repeated 2 times)'' @ [CHR 0x0A]\<rparr> \<and>
   compaction_pass
     \<lparr>opens_for_reading = True, opens_for_writing = True,
      bytes = ''[2024-01-01 00:00:00] [INFO] Started (repeated 2 times)'' @ [CHR 0x0A]\<rparr> 1000 =
   Inr \<lparr>opens_for_reading = True, opens_for_writing = True,
      bytes = ''[2024-01-01 00:00:00] [INFO] Started (repeated 2 times)'' @ [CHR 0x0A]\<rparr>"
proof -
  let ?L = "''[2024-01-01 00:00:00] [INFO] Started''"
  let ?F = "\<lparr>opens_for_reading = True, opens_for_writing = True,
      bytes = ?L @ [CHR 0x0A] @ ?L @ [CHR 0x0A]\<rparr>"
  let ?F1 = "\<lparr>opens_for_reading = True, opens_for_writing = True,
      bytes = ''[2024-01-01 00:00:00] [INFO] Started (repeated 2 times)'' @ [CHR 0x0A]\<rparr>"
  have two: "decimal 2 = ''2''" by (simp add: decimal.simps [of 2] digit_char_def)
  have first: "compaction_pass ?F 1000 = Inr ?F1"
    using eval_read_started
    by (simp add: compaction_pass_def CompressAndTrimLogFile_def file_after_def eval_started
        write_records_def SerializeRecord_def two)
  have "read_lines (bytes ?F) [] = Inr [?L, ?L]" using eval_read_started by simp
  moreover have "\<forall>l \<in> set [?L, ?L]. stable_line l" using stable_started by simp
  ultimately obtain f1 where "compaction_pass ?F 1000 = Inr f1" "compaction_pass f1 1000 = Inr f1"
    using compaction_idempotent [of ?F "[?L, ?L]" 1000] by blast
  with first have "compaction_pass ?F1 1000 = Inr ?F1" by simp
  with first stable_started eval_read_started show ?thesis by simp
qed

text \<open>
  Without the condition the claim fails. A line whose base line still ends in a repeat
  suffix is written back with that inner suffix showing when its count is 1, and the next
  pass reads the inner suffix as a count: the file of the first pass has two lines, the
  file of the second pass one.
\<close>

theorem compaction_twice_counterexample:
  "compaction_pass
     \<lparr>opens_for_reading = True, opens_for_writing = True,
      bytes = ''X (repeated 2 times) (repeated 1 times)'' @ [CHR 0x0A] @ ''X'' @ [CHR 0x0A]\<rparr> 1000 =
   Inr \<lparr>opens_for_reading = True, opens_for_writing = True,
      bytes = ''X (repeated 2 times)'' @ [CHR 0x0A] @ ''X'' @ [CHR 0x0A]\<rparr> \<and>
   compaction_pass
     \<lparr>opens_for_reading = True, opens_for_writing = True,
      bytes = ''X (repeated 2 times)'' @ [CHR 0x0A] @ ''X'' @ [CHR 0x0A]\<rparr> 1000 =
   Inr \<lparr>opens_for_reading = True, opens_for_writing = True,
      bytes = ''X (repeated 3 times)'' @ [CHR 0x0A]\<rparr>"
proof -
  have first: "compact_records [''X (repeated 2 times) (repeated 1 times)'', ''X''] 1000 =
      Inr [(''X (repeated 2 times)'',
              \<lparr>baseLine = ''X (repeated 2 times)'', count = 1, lastIndex = 0\<rparr>),
           (''X'', \<lparr>baseLine = ''X'', count = 1, lastIndex = 1\<rparr>)]"
    by (simp add: compact_records_def group_loop.simps eval_x2_x1 parse_line_short
        ExtractKey_def str_find_def sort_by_recency_def keep_last_def)
  have second: "compact_records [''X (repeated 2 times)'', ''X''] 1000 =
      Inr [(''X'', \<lparr>baseLine = ''X'', count = 3, lastIndex = 1\<rparr>)]"
    by (simp add: compact_records_def group_loop.simps eval_x2 parse_line_short
        ExtractKey_def str_find_def sort_by_recency_def keep_last_def)
  have three: "decimal 3 = ''3''" by (simp add: decimal.simps [of 3] digit_char_def)
  show ?thesis
    using eval_read_nested eval_read_nested_again
    by (simp add: compaction_pass_def CompressAndTrimLogFile_def file_after_def first second
        write_records_def SerializeRecord_def three)
qed

text \<open>
  The last condition of \<open>stable_line\<close> is needed as well. \<open>IsTimestampStart\<close> does not take
  the six characters at the very end of a line for a timestamp start, so the line
  \<open>a[2024-\<close> is not split; once a repeat suffix stands behind it, the next pass splits it.
\<close>

lemma compaction_twice_year_tail:
  "compaction_pass
     \<lparr>opens_for_reading = True, opens_for_writing = True,
      bytes = ''a[2024-'' @ [CHR 0x0A] @ ''a[2024-'' @ [CHR 0x0A]\<rparr> 1000 =
   Inr \<lparr>opens_for_reading = True, opens_for_writing = True,
      bytes = ''a[2024- (repeated 2 times)'' @ [CHR 0x0A]\<rparr> \<and>
   compaction_pass
     \<lparr>opens_for_reading = True, opens_for_writing = True,
      bytes = ''a[2024- (repeated 2 times)'' @ [CHR 0x0A]\<rparr> 1000 =
   Inr \<lparr>opens_for_reading = True, opens_for_writing = True,
      bytes = ''a'' @ [CHR 0x0A] @ ''[2024- (repeated 2 times)'' @ [CHR 0x0A]\<rparr>"
proof -
  have r1: "read_lines (''a[2024-'' @ [CHR 0x0A] @ ''a[2024-'' @ [CHR 0x0A]) [] =
      Inr [''a[2024-'', ''a[2024-'']"
    by (simp add: read_lines.simps SplitConcatenatedLines_def split_loop.simps
        IsTimestampStart_def substr_from_def)
  have r2: "read_lines (''a[2024- (repeated 2 times)'' @ [CHR 0x0A]) [] =
      Inr [''a'', ''[2024- (repeated 2 times)'']"
    by (simp add: read_lines.simps SplitConcatenatedLines_def split_loop.simps
        IsTimestampStart_def substr_from_def substr_def isdigit_def)
  have p: "parse_line ''[2024- (repeated 2 times)'' = Inr (2, ''[2024-'')"
    using parse_line_digits [of "''2''" "''[2024-''"]
    by (simp add: isdigit_def digits_fold_def digit_value_def)
  have c1: "compact_records [''a[2024-'', ''a[2024-''] 1000 =
      Inr [(''a[2024-'', \<lparr>baseLine = ''a[2024-'', count = 2, lastIndex = 1\<rparr>)]"
    by (simp add: compact_records_def group_loop.simps parse_line_short
        ExtractKey_def str_find_def sort_by_recency_def keep_last_def)
  have c2: "compact_records [''a'', ''[2024- (repeated 2 times)''] 1000 =
      Inr [(''a'', \<lparr>baseLine = ''a'', count = 1, lastIndex = 0\<rparr>),
           (''[2024-'', \<lparr>baseLine = ''[2024-'', count = 2, lastIndex = 1\<rparr>)]"
    by (simp add: compact_records_def group_loop.simps parse_line_short p
        ExtractKey_def str_find_def sort_by_recency_def keep_last_def)
  have two: "decimal 2 = ''2''" by (simp add: decimal.simps [of 2] digit_char_def)
  show ?thesis
    using r1 r2
    by (simp add: compaction_pass_def CompressAndTrimLogFile_def file_after_def c1 c2
        write_records_def SerializeRecord_def two)
qed

end
